theory Spec2Isabelle
  imports Main "HOL-Library.Word" "HOL-Library.Signed_Division"
begin

section \<open>Machine integers\<close>

text \<open>
  Go's \<open>int\<close> and \<open>uint\<close> are 64 bits wide on the 64-bit targets; both are words here.
  Addition, subtraction and multiplication wrap around; \<open>sint\<close> reads a word as a signed
  \<open>int\<close>, \<open>uint\<close> and \<open>unat\<close> read it unsigned; \<open><s\<close> and \<open>\<le>s\<close> are the signed orders.
  The conversions \<open>uint(perms)\<close> and \<open>int(i)\<close> of the source keep the bits, so they are the
  identity on words. Cursors and lengths are positions in a buffer held in memory; they are
  mathematical integers.
\<close>

type_synonym go_int = "64 word"
type_synonym go_uint = "64 word"

definition MaxUint32 :: go_uint where
  "MaxUint32 = 4294967295"

definition MaxInt64 :: go_int where
  "MaxInt64 = 9223372036854775807"

definition MinInt64 :: go_int where
  "MinInt64 = - 9223372036854775808"

text \<open>Go's \<open>/\<close> and \<open>%\<close> on signed integers truncate towards zero and wrap around on
  \<open>MinInt64 / -1\<close>; a zero divisor panics, which the callers below check first.\<close>

definition int_quo :: "go_int \<Rightarrow> go_int \<Rightarrow> go_int" where
  "int_quo a b = word_of_int (sint a sdiv sint b)"

definition int_rem :: "go_int \<Rightarrow> go_int \<Rightarrow> go_int" where
  "int_rem a b = word_of_int (sint a smod sint b)"

section \<open>Panics and results\<close>

datatype panic =
    Message string
  | Atoi_error
  | Index_out_of_range
  | Integer_divide_by_zero
  | Nil_dereference
  | Slice_bounds_out_of_range
  | Makeslice_len_out_of_range
  | Interface_conversion

text \<open>A call returns, panics, or (for the recursive methods, which carry fuel) has not
  returned within the given recursion depth.\<close>

datatype 'a outcome = Out_of_fuel | Panics panic | Returns 'a

definition and_then :: "'a outcome \<Rightarrow> ('a \<Rightarrow> 'b outcome) \<Rightarrow> 'b outcome" where
  "and_then m f = (case m of Out_of_fuel \<Rightarrow> Out_of_fuel | Panics p \<Rightarrow> Panics p | Returns x \<Rightarrow> f x)"

section \<open>strconv\<close>

text \<open>
  \<open>strconv.Itoa\<close> and \<open>strconv.Atoi\<close> belong to Go's standard library. \<open>Itoa\<close> writes the
  decimal digits, with a leading minus sign for a negative number. \<open>Atoi\<close> accepts an
  optional sign followed by one or more decimal digits; on an empty or malformed text it
  returns 0 and a syntax error, on a number outside the 64-bit range it returns the
  nearest bound and a range error. The second component says whether the error is set.
\<close>

definition is_digit :: "char \<Rightarrow> bool" where
  "is_digit c = (\<not> ((of_char c :: nat) < 48 \<or> (of_char c :: nat) > 57))"

definition digit_char :: "nat \<Rightarrow> char" where
  "digit_char d = ''0123456789'' ! d"

fun digits :: "nat \<Rightarrow> string" where
  "digits n = (if n < 10 then [digit_char n] else digits (n div 10) @ [digit_char (n mod 10)])"

declare digits.simps [simp del]

definition Itoa :: "go_int \<Rightarrow> string" where
  "Itoa i = (if sint i < 0 then CHR ''-'' # digits (nat (- sint i)) else digits (nat (sint i)))"

definition digit_val :: "char \<Rightarrow> nat" where
  "digit_val c = of_char c - 48"

definition digits_val :: "string \<Rightarrow> nat" where
  "digits_val ds = foldl (\<lambda>acc c. 10 * acc + digit_val c) 0 ds"

definition Atoi :: "string \<Rightarrow> go_int \<times> bool" where
  "Atoi s =
     (case s of
        [] \<Rightarrow> (0, True)
      | c # r \<Rightarrow>
          (let neg = (c = CHR ''-'');
               ds = (if c = CHR ''-'' \<or> c = CHR ''+'' then r else s)
           in if ds = [] \<or> \<not> list_all is_digit ds then (0, True)
              else if neg then
                (if 2 ^ 63 < digits_val ds then (MinInt64, True)
                 else (word_of_int (- int (digits_val ds)), False))
              else
                (if 2 ^ 63 \<le> digits_val ds then (MaxInt64, True)
                 else (word_of_nat (digits_val ds), False))))"

section \<open>Tokens\<close>

text \<open>
  A token is an object in a store, and a \<open>token.Token\<close> value is a reference: \<open>None\<close> for
  \<open>nil\<close>, or the address of an object. The \<open>==\<close> of the source on two such values compares
  the references. The store is a list of objects, an address is an index into it, and a
  new object is appended. Calling a method through \<open>nil\<close> panics.

  The fields of the structures, in the order of their declarations:
  \<open>ConstantInt value\<close>, \<open>RandomInt value\<close>, \<open>RangeInt from to step value\<close>,
  \<open>AddArithmetic a b\<close> (and likewise the other three operators), and \<open>Least n token value\<close>
  (written \<open>Least_tok\<close>).
\<close>

type_synonym addr = nat

type_synonym ref = "addr option"

datatype obj =
    ConstantInt go_int
  | RandomInt go_int
  | RangeInt go_int go_int go_int go_int
  | AddArithmetic ref ref
  | SubArithmetic ref ref
  | MulArithmetic ref ref
  | DivArithmetic ref ref
  | Least_tok go_int ref "ref list"

type_synonym heap = "obj list"

definition alloc :: "heap \<Rightarrow> obj \<Rightarrow> ref \<times> heap" where
  "alloc h v = (Some (length h), h @ [v])"

definition deref :: "heap \<Rightarrow> ref \<Rightarrow> obj outcome" where
  "deref h r =
     (case r of
        None \<Rightarrow> Panics Nil_dereference
      | Some p \<Rightarrow> if p < length h then Returns (h ! p) else Panics Nil_dereference)"

subsection \<open>Errors\<close>

text \<open>Modelled from the spec: the declarations of \<open>token.PermutationError\<close>,
  \<open>token.ParserError\<close> and \<open>token.InternalParser\<close> are not among the sources. An error
  carries its \<open>Type\<close>; the \<open>Message\<close> of a parser error, free text made by \<open>fmt.Sprintf\<close>,
  is left out. The parser holds the buffer \<open>Data\<close> and its length \<open>DataLen\<close>.\<close>

datatype PermutationError = PermutationErrorIndexOutOfBound

datatype ParserError = ParseErrorUnexpectedEOF | ParseErrorUnexpectedData

record InternalParser =
  Data :: string
  DataLen :: int

subsection \<open>Constructors of the integer tokens\<close>

definition NewConstantInt :: "go_int \<Rightarrow> obj" where
  "NewConstantInt v = ConstantInt v"

definition NewRandomInt :: obj where
  "NewRandomInt = RandomInt 0"

definition NewRangeInt :: "go_int \<Rightarrow> go_int \<Rightarrow> obj outcome" where
  "NewRangeInt from to =
     (if to <s from then Panics (Message ''TODO implement that From can be bigger than To'')
      else Returns (RangeInt from to 1 from))"

definition NewRangeIntWithStep :: "go_int \<Rightarrow> go_int \<Rightarrow> go_int \<Rightarrow> obj outcome" where
  "NewRangeIntWithStep from to step =
     (if to <s from then Panics (Message ''TODO implement that From can be bigger than To'')
      else if step <s 1 then Panics (Message ''TODO implement 0 and negative step'')
      else Returns (RangeInt from to step from))"

subsection \<open>Permutations and Permutation\<close>

text \<open>One equation for the method of each token type. \<open>Permutation\<close> returns the receiver
  after the call and the error (\<open>None\<close> for \<open>nil\<close>).\<close>

fun Permutations :: "obj \<Rightarrow> go_uint outcome" where
  "Permutations (ConstantInt v) = Returns 1"
| "Permutations (RandomInt v) = Returns 1"
| "Permutations (RangeInt from to step v) =
     (if step = 0 then Panics Integer_divide_by_zero
      else let perms = int_quo (to - from) step + 1
           in if perms <s 0 then Returns MaxUint32 else Returns perms)"
| "Permutations (AddArithmetic a b) = Returns 1"
| "Permutations (SubArithmetic a b) = Returns 1"
| "Permutations (MulArithmetic a b) = Returns 1"
| "Permutations (DivArithmetic a b) = Returns 1"
| "Permutations (Least_tok n t vs) = Panics (Message ''TODO this might be hard to fit in 64bit'')"

text \<open>The unexported \<open>RangeInt.permutation\<close>.\<close>

definition permutation :: "go_int \<Rightarrow> go_int \<Rightarrow> go_int \<Rightarrow> go_uint \<Rightarrow> obj" where
  "permutation from to step i = RangeInt from to step (from + i * step)"

definition check_index :: "obj \<Rightarrow> go_uint \<Rightarrow> obj \<Rightarrow> (obj \<times> PermutationError option) outcome" where
  "check_index p i done =
     and_then (Permutations p) (\<lambda>permutations.
       if i < 1 \<or> permutations < i then Returns (p, Some PermutationErrorIndexOutOfBound)
       else Returns (done, None))"

fun Permutation :: "obj \<Rightarrow> go_uint \<Rightarrow> (obj \<times> PermutationError option) outcome" where
  "Permutation (ConstantInt v) i = check_index (ConstantInt v) i (ConstantInt v)"
| "Permutation (RandomInt v) i = check_index (RandomInt v) i (RandomInt 0)"
| "Permutation (RangeInt from to step v) i =
     check_index (RangeInt from to step v) i (permutation from to step (i - 1))"
| "Permutation (AddArithmetic a b) i = check_index (AddArithmetic a b) i (AddArithmetic a b)"
| "Permutation (SubArithmetic a b) i = check_index (SubArithmetic a b) i (SubArithmetic a b)"
| "Permutation (MulArithmetic a b) i = check_index (MulArithmetic a b) i (MulArithmetic a b)"
| "Permutation (DivArithmetic a b) i = check_index (DivArithmetic a b) i (DivArithmetic a b)"
| "Permutation (Least_tok n t vs) i = Panics (Message ''TODO not implemented'')"

text \<open>The tokens that implement the enumeration: every type but the list, whose methods
  panic; a ranged integer needs a step other than zero for the division (its constructors
  give a step of at least 1).\<close>

definition enumerable :: "obj \<Rightarrow> bool" where
  "enumerable p =
     (case p of Least_tok n t vs \<Rightarrow> False | RangeInt from to step v \<Rightarrow> step \<noteq> 0 | _ \<Rightarrow> True)"

subsection \<open>String\<close>

text \<open>\<open>String\<close> renders a token. The arithmetic tokens and the list call the method of
  their children, so the function takes the store, the receiver's address and a bound on
  the depth of the calls.\<close>

definition atoi_or_panic :: "string \<Rightarrow> go_int outcome" where
  "atoi_or_panic s = (case Atoi s of (v, True) \<Rightarrow> Panics Atoi_error | (v, False) \<Rightarrow> Returns v)"

primrec String :: "nat \<Rightarrow> heap \<Rightarrow> ref \<Rightarrow> string outcome" where
  "String 0 h r = Out_of_fuel"
| "String (Suc k) h r =
     and_then (deref h r) (\<lambda>tok.
       case tok of
          ConstantInt v \<Rightarrow> Returns (Itoa v)
        | RandomInt v \<Rightarrow> Returns (Itoa v)
        | RangeInt from to step v \<Rightarrow> Returns (Itoa v)
        | AddArithmetic a b \<Rightarrow>
            and_then (and_then (String k h a) atoi_or_panic) (\<lambda>x.
            and_then (and_then (String k h b) atoi_or_panic) (\<lambda>y.
            Returns (Itoa (x + y))))
        | SubArithmetic a b \<Rightarrow>
            and_then (and_then (String k h a) atoi_or_panic) (\<lambda>x.
            and_then (and_then (String k h b) atoi_or_panic) (\<lambda>y.
            Returns (Itoa (x - y))))
        | MulArithmetic a b \<Rightarrow>
            and_then (and_then (String k h a) atoi_or_panic) (\<lambda>x.
            and_then (and_then (String k h b) atoi_or_panic) (\<lambda>y.
            Returns (Itoa (x * y))))
        | DivArithmetic a b \<Rightarrow>
            and_then (and_then (String k h a) atoi_or_panic) (\<lambda>x.
            and_then (and_then (String k h b) atoi_or_panic) (\<lambda>y.
            if y = 0 then Panics Integer_divide_by_zero else Returns (Itoa (int_quo x y))))
        | Least_tok n t vs \<Rightarrow>
            foldl (\<lambda>buffer tok. and_then buffer (\<lambda>written.
                     and_then (String k h tok) (\<lambda>s. Returns (written @ s))))
              (Returns []) vs)"

subsection \<open>Parse\<close>

text \<open>A slice expression \<open>s[low:high]\<close> panics unless \<open>0 \<le> low \<le> high \<le> len(s)\<close>.\<close>

definition slice :: "string \<Rightarrow> int \<Rightarrow> int \<Rightarrow> string outcome" where
  "slice s low high =
     (if 0 \<le> low \<and> low \<le> high \<and> high \<le> int (length s)
      then Returns (take (nat (high - low)) (drop (nat low) s))
      else Panics Slice_bounds_out_of_range)"

text \<open>The loop of \<open>RangeInt.Parse\<close>: \<open>i\<close> is the index, \<open>v\<close> the digits taken so far. It returns
  both at the \<open>break\<close>. Reading \<open>pars.Data[i]\<close> outside the buffer panics.\<close>

function Parse_loop :: "InternalParser \<Rightarrow> go_int \<Rightarrow> int \<Rightarrow> string \<Rightarrow> (int \<times> string) outcome" where
  "Parse_loop pars to i v =
     (if i < 0 \<or> int (length (Data pars)) \<le> i then Panics Index_out_of_range
      else let c = Data pars ! nat i
           in if \<not> is_digit c then Returns (i, v)
              else if to <s fst (Atoi (v @ [c])) then Returns (i, butlast (v @ [c]))
              else if i + 1 = DataLen pars then Returns (i + 1, v @ [c])
              else Parse_loop pars to (i + 1) (v @ [c]))"
  by pat_completeness auto
termination
  by (relation "measure (\<lambda>(pars, to, i, v). nat (int (length (Data pars)) - i))") auto

declare Parse_loop.simps [simp del]

text \<open>The failure branch of \<open>RangeInt.Parse\<close>; the slice \<open>pars.Data[cur:i]\<close> is taken for the
  message.\<close>

definition unexpected_data :: "obj \<Rightarrow> InternalParser \<Rightarrow> int \<Rightarrow> int \<Rightarrow> (obj \<times> int \<times> ParserError list) outcome" where
  "unexpected_data p pars cur i =
     (let i = (if i < cur then cur else i)
      in and_then (slice (Data pars) cur i) (\<lambda>got. Returns (p, cur, [ParseErrorUnexpectedData])))"

text \<open>\<open>Parse\<close> returns the receiver after the call, the cursor and the errors (\<open>[]\<close> for
  \<open>nil\<close>). In the condition of \<open>RangeInt.Parse\<close> the operator \<open>||\<close> evaluates \<open>ci % step\<close>
  only when the checks before it are false.\<close>

fun Parse :: "obj \<Rightarrow> InternalParser \<Rightarrow> int \<Rightarrow> (obj \<times> int \<times> ParserError list) outcome" where
  "Parse (ConstantInt value) pars cur =
     (let v = Itoa value;
          vLen = int (length v);
          nextIndex = vLen + cur
      in if DataLen pars < nextIndex then Returns (ConstantInt value, cur, [ParseErrorUnexpectedEOF])
         else and_then (slice (Data pars) cur nextIndex) (\<lambda>got.
           if v \<noteq> got then Returns (ConstantInt value, cur, [ParseErrorUnexpectedData])
           else Returns (ConstantInt value, nextIndex, [])))"
| "Parse (RandomInt value) pars cur = Panics (Message ''TODO implement'')"
| "Parse (RangeInt from to step value) pars cur =
     (if cur = DataLen pars then Returns (RangeInt from to step value, cur, [ParseErrorUnexpectedEOF])
      else and_then (Parse_loop pars to cur []) (\<lambda>(i, v).
        let i = i - 1;
            ci = fst (Atoi v)
        in if v = [] \<or> (ci <s from \<or> to <s ci) then unexpected_data (RangeInt from to step value) pars cur i
           else if step = 0 then Panics Integer_divide_by_zero
           else if int_rem ci step \<noteq> 0 then unexpected_data (RangeInt from to step value) pars cur i
           else Returns (RangeInt from to step ci, i + 1, [])))"
| "Parse (AddArithmetic a b) pars cur = Panics (Message ''TODO implement'')"
| "Parse (SubArithmetic a b) pars cur = Panics (Message ''TODO implement'')"
| "Parse (MulArithmetic a b) pars cur = Panics (Message ''TODO implement'')"
| "Parse (DivArithmetic a b) pars cur = Panics (Message ''TODO implement'')"
| "Parse (Least_tok n t vs) pars cur = Panics (Message ''TODO implement'')"

text \<open>A decimal text as \<open>Itoa\<close> writes a number that is not negative: digits with no
  superfluous leading zero.\<close>

definition canonical :: "string \<Rightarrow> bool" where
  "canonical ds = (ds \<noteq> [] \<and> list_all is_digit ds \<and> (ds = ''0'' \<or> hd ds \<noteq> CHR ''0''))"

subsection \<open>Clone\<close>

text \<open>A loop that calls a method \<open>f\<close> for each reference of a slice in turn, threading the
  store, and collects the references returned.\<close>

fun each :: "(heap \<Rightarrow> ref \<Rightarrow> (ref \<times> heap) outcome) \<Rightarrow> ref list \<Rightarrow> heap \<Rightarrow> (ref list \<times> heap) outcome" where
  "each f [] h = Returns ([], h)"
| "each f (r # rs) h =
     and_then (f h r) (\<lambda>(r', h1).
     and_then (each f rs h1) (\<lambda>(rs', h2).
     Returns (r' # rs', h2)))"

text \<open>\<open>Clone\<close> returns the reference to the copy and the store that holds it.\<close>

primrec Clone :: "nat \<Rightarrow> heap \<Rightarrow> ref \<Rightarrow> (ref \<times> heap) outcome" where
  "Clone 0 h r = Out_of_fuel"
| "Clone (Suc k) h r =
     and_then (deref h r) (\<lambda>tok.
       case tok of
          ConstantInt v \<Rightarrow> Returns (alloc h (ConstantInt v))
        | RandomInt v \<Rightarrow> Returns (alloc h (RandomInt v))
        | RangeInt from to step v \<Rightarrow> Returns (alloc h (RangeInt from to step v))
        | AddArithmetic a b \<Rightarrow>
            and_then (Clone k h a) (\<lambda>(a', h1).
            and_then (Clone k h1 b) (\<lambda>(b', h2).
            Returns (alloc h2 (AddArithmetic a' b'))))
        | SubArithmetic a b \<Rightarrow>
            and_then (Clone k h a) (\<lambda>(a', h1).
            and_then (Clone k h1 b) (\<lambda>(b', h2).
            Returns (alloc h2 (SubArithmetic a' b'))))
        | MulArithmetic a b \<Rightarrow>
            and_then (Clone k h a) (\<lambda>(a', h1).
            and_then (Clone k h1 b) (\<lambda>(b', h2).
            Returns (alloc h2 (MulArithmetic a' b'))))
        | DivArithmetic a b \<Rightarrow>
            and_then (Clone k h a) (\<lambda>(a', h1).
            and_then (Clone k h1 b) (\<lambda>(b', h2).
            Returns (alloc h2 (DivArithmetic a' b'))))
        | Least_tok n t vs \<Rightarrow>
            and_then (Clone k h t) (\<lambda>(t', h1).
            and_then (each (Clone k) vs h1) (\<lambda>(vs', h2).
            Returns (alloc h2 (Least_tok n t' vs')))))"

subsection \<open>PermutationsAll\<close>

primrec PermutationsAll :: "nat \<Rightarrow> heap \<Rightarrow> ref \<Rightarrow> go_uint outcome" where
  "PermutationsAll 0 h r = Out_of_fuel"
| "PermutationsAll (Suc k) h r =
     and_then (deref h r) (\<lambda>tok.
       case tok of
          ConstantInt v \<Rightarrow> Permutations (ConstantInt v)
        | RandomInt v \<Rightarrow> Permutations (RandomInt v)
        | RangeInt from to step v \<Rightarrow> Permutations (RangeInt from to step v)
        | AddArithmetic a b \<Rightarrow>
            and_then (PermutationsAll k h a) (\<lambda>x.
            and_then (PermutationsAll k h b) (\<lambda>y. Returns (x * y)))
        | SubArithmetic a b \<Rightarrow>
            and_then (PermutationsAll k h a) (\<lambda>x.
            and_then (PermutationsAll k h b) (\<lambda>y. Returns (x * y)))
        | MulArithmetic a b \<Rightarrow>
            and_then (PermutationsAll k h a) (\<lambda>x.
            and_then (PermutationsAll k h b) (\<lambda>y. Returns (x * y)))
        | DivArithmetic a b \<Rightarrow>
            and_then (PermutationsAll k h a) (\<lambda>x.
            and_then (PermutationsAll k h b) (\<lambda>y. Returns (x * y)))
        | Least_tok n t vs \<Rightarrow> Panics (Message ''TODO this might be hard to fit in 64bit''))"

subsection \<open>The list of at least n tokens\<close>

text \<open>\<open>NewLeast\<close>: \<open>make\<close> panics on a negative length; the loop then stores a clone of the
  token at each index.\<close>

definition NewLeast :: "nat \<Rightarrow> heap \<Rightarrow> ref \<Rightarrow> go_int \<Rightarrow> (ref \<times> heap) outcome" where
  "NewLeast k h tok n =
     (if n <s 0 then Panics Makeslice_len_out_of_range
      else and_then (each (Clone k) (replicate (nat (sint n)) tok) h) (\<lambda>(vs, h1).
           Returns (alloc h1 (Least_tok n tok vs))))"

text \<open>The methods of \<open>Least\<close> alone are reached through a conversion to the list or the
  optional-token interface, which panics for a token of another type.\<close>

definition Len :: "heap \<Rightarrow> ref \<Rightarrow> int outcome" where
  "Len h l =
     and_then (deref h l) (\<lambda>tok.
       case tok of
          Least_tok n t vs \<Rightarrow> Returns (int (length vs))
        | AddArithmetic a b \<Rightarrow> Returns 2
        | SubArithmetic a b \<Rightarrow> Returns 2
        | MulArithmetic a b \<Rightarrow> Returns 2
        | DivArithmetic a b \<Rightarrow> Returns 2
        | _ \<Rightarrow> Panics Interface_conversion)"

definition IsOptional :: "heap \<Rightarrow> ref \<Rightarrow> bool outcome" where
  "IsOptional h l =
     and_then (deref h l) (\<lambda>tok.
       case tok of
          Least_tok n t vs \<Rightarrow> Returns (n = 0)
        | _ \<Rightarrow> Panics Interface_conversion)"

text \<open>\<open>Activate\<close>, \<open>Deactivate\<close> and \<open>InternalReplace\<close> return the store after the call; an
  assignment to a field of the receiver at address \<open>p\<close> replaces the object at \<open>p\<close>.\<close>

definition Activate :: "nat \<Rightarrow> heap \<Rightarrow> ref \<Rightarrow> heap outcome" where
  "Activate k h l =
     and_then (deref h l) (\<lambda>tok.
       case tok of
          Least_tok n t vs \<Rightarrow>
            if 0 <s n then Returns h
            else and_then (Clone k h t) (\<lambda>(c, h1).
                 Returns (h1[the l := Least_tok n t [c]]))
        | _ \<Rightarrow> Panics Interface_conversion)"

definition Deactivate :: "heap \<Rightarrow> ref \<Rightarrow> heap outcome" where
  "Deactivate h l =
     and_then (deref h l) (\<lambda>tok.
       case tok of
          Least_tok n t vs \<Rightarrow>
            if 0 <s n then Returns h
            else Returns (h[the l := Least_tok n t []])
        | _ \<Rightarrow> Panics Interface_conversion)"



section \<open>Token trees\<close>

text \<open>
  The tokens reachable from a reference form a tree when the unfolding of the store from
  that reference is finite and meets no \<open>nil\<close>. \<open>repr P h r t\<close> says that it is the tree \<open>t\<close>,
  and that every object met on the way lies at an address that satisfies \<open>P\<close>.
\<close>

datatype tree =
    ConstantInt_tree go_int
  | RandomInt_tree go_int
  | RangeInt_tree go_int go_int go_int go_int
  | AddArithmetic_tree tree tree
  | SubArithmetic_tree tree tree
  | MulArithmetic_tree tree tree
  | DivArithmetic_tree tree tree
  | Least_tree go_int tree "tree list"

definition at :: "(addr \<Rightarrow> bool) \<Rightarrow> heap \<Rightarrow> ref \<Rightarrow> (obj \<Rightarrow> bool) \<Rightarrow> bool" where
  "at P h r Q = (case r of None \<Rightarrow> False | Some p \<Rightarrow> p < length h \<and> P p \<and> Q (h ! p))"

fun repr :: "(addr \<Rightarrow> bool) \<Rightarrow> heap \<Rightarrow> ref \<Rightarrow> tree \<Rightarrow> bool" where
  "repr P h r (ConstantInt_tree v) =
     at P h r (\<lambda>tok. tok = ConstantInt v)"
| "repr P h r (RandomInt_tree v) =
     at P h r (\<lambda>tok. tok = RandomInt v)"
| "repr P h r (RangeInt_tree from to step v) =
     at P h r (\<lambda>tok. tok = RangeInt from to step v)"
| "repr P h r (AddArithmetic_tree x y) =
     at P h r (\<lambda>tok. case tok of AddArithmetic a b \<Rightarrow> repr P h a x \<and> repr P h b y | _ \<Rightarrow> False)"
| "repr P h r (SubArithmetic_tree x y) =
     at P h r (\<lambda>tok. case tok of SubArithmetic a b \<Rightarrow> repr P h a x \<and> repr P h b y | _ \<Rightarrow> False)"
| "repr P h r (MulArithmetic_tree x y) =
     at P h r (\<lambda>tok. case tok of MulArithmetic a b \<Rightarrow> repr P h a x \<and> repr P h b y | _ \<Rightarrow> False)"
| "repr P h r (DivArithmetic_tree x y) =
     at P h r (\<lambda>tok. case tok of DivArithmetic a b \<Rightarrow> repr P h a x \<and> repr P h b y | _ \<Rightarrow> False)"
| "repr P h r (Least_tree n x xs) =
     at P h r (\<lambda>tok. case tok of
         Least_tok m t vs \<Rightarrow> m = n \<and> repr P h t x \<and> list_all2 (repr P h) vs xs
       | _ \<Rightarrow> False)"

fun height :: "tree \<Rightarrow> nat" where
  "height (ConstantInt_tree v) = 1"
| "height (RandomInt_tree v) = 1"
| "height (RangeInt_tree from to step v) = 1"
| "height (AddArithmetic_tree x y) = Suc (max (height x) (height y))"
| "height (SubArithmetic_tree x y) = Suc (max (height x) (height y))"
| "height (MulArithmetic_tree x y) = Suc (max (height x) (height y))"
| "height (DivArithmetic_tree x y) = Suc (max (height x) (height y))"
| "height (Least_tree n x xs) = Suc (max (height x) (foldr max (map height xs) 0))"

text \<open>The text of a tree: what \<open>String\<close> computes, written on the tree.\<close>

fun render :: "tree \<Rightarrow> string outcome" where
  "render (ConstantInt_tree v) = Returns (Itoa v)"
| "render (RandomInt_tree v) = Returns (Itoa v)"
| "render (RangeInt_tree from to step v) = Returns (Itoa v)"
| "render (AddArithmetic_tree x y) =
     and_then (and_then (render x) atoi_or_panic) (\<lambda>a.
     and_then (and_then (render y) atoi_or_panic) (\<lambda>b.
     Returns (Itoa (a + b))))"
| "render (SubArithmetic_tree x y) =
     and_then (and_then (render x) atoi_or_panic) (\<lambda>a.
     and_then (and_then (render y) atoi_or_panic) (\<lambda>b.
     Returns (Itoa (a - b))))"
| "render (MulArithmetic_tree x y) =
     and_then (and_then (render x) atoi_or_panic) (\<lambda>a.
     and_then (and_then (render y) atoi_or_panic) (\<lambda>b.
     Returns (Itoa (a * b))))"
| "render (DivArithmetic_tree x y) =
     and_then (and_then (render x) atoi_or_panic) (\<lambda>a.
     and_then (and_then (render y) atoi_or_panic) (\<lambda>b.
     if b = 0 then Panics Integer_divide_by_zero else Returns (Itoa (int_quo a b))))"
| "render (Least_tree n x xs) =
     foldl (\<lambda>buffer t. and_then buffer (\<lambda>written.
              and_then (render t) (\<lambda>s. Returns (written @ s))))
       (Returns []) xs"

text \<open>The number of permutations of a whole tree in unbounded arithmetic: the token's own
  \<open>Permutations\<close> times the product of the numbers of its children. It is stated for the
  trees of integer and arithmetic tokens; the list has no count.\<close>

fun enumerable_tree :: "tree \<Rightarrow> bool" where
  "enumerable_tree (ConstantInt_tree v) = True"
| "enumerable_tree (RandomInt_tree v) = True"
| "enumerable_tree (RangeInt_tree from to step v) = (step \<noteq> 0)"
| "enumerable_tree (AddArithmetic_tree x y) = (enumerable_tree x \<and> enumerable_tree y)"
| "enumerable_tree (SubArithmetic_tree x y) = (enumerable_tree x \<and> enumerable_tree y)"
| "enumerable_tree (MulArithmetic_tree x y) = (enumerable_tree x \<and> enumerable_tree y)"
| "enumerable_tree (DivArithmetic_tree x y) = (enumerable_tree x \<and> enumerable_tree y)"
| "enumerable_tree (Least_tree n x xs) = False"

definition own_permutations :: "obj \<Rightarrow> nat" where
  "own_permutations tok = (case Permutations tok of Returns n \<Rightarrow> unat n | _ \<Rightarrow> 0)"

fun product_of_permutations :: "tree \<Rightarrow> nat" where
  "product_of_permutations (ConstantInt_tree v) = own_permutations (ConstantInt v)"
| "product_of_permutations (RandomInt_tree v) = own_permutations (RandomInt v)"
| "product_of_permutations (RangeInt_tree from to step v) =
     own_permutations (RangeInt from to step v)"
| "product_of_permutations (AddArithmetic_tree x y) =
     own_permutations (AddArithmetic None None)
       * (product_of_permutations x * product_of_permutations y)"
| "product_of_permutations (SubArithmetic_tree x y) =
     own_permutations (SubArithmetic None None)
       * (product_of_permutations x * product_of_permutations y)"
| "product_of_permutations (MulArithmetic_tree x y) =
     own_permutations (MulArithmetic None None)
       * (product_of_permutations x * product_of_permutations y)"
| "product_of_permutations (DivArithmetic_tree x y) =
     own_permutations (DivArithmetic None None)
       * (product_of_permutations x * product_of_permutations y)"
| "product_of_permutations (Least_tree n x xs) = 0"


text \<open>\<open>extends h h'\<close>: the store \<open>h'\<close> keeps every object of \<open>h\<close> and may hold new ones.
  \<open>cloned h t res\<close>: the call returned, in a store that extends \<open>h\<close>, a reference to the tree
  \<open>t\<close> made of objects that \<open>h\<close> does not hold.\<close>

definition extends :: "heap \<Rightarrow> heap \<Rightarrow> bool" where
  "extends h h' = (\<exists>new. h' = h @ new)"

definition cloned :: "heap \<Rightarrow> tree \<Rightarrow> (ref \<times> heap) outcome \<Rightarrow> bool" where
  "cloned h t res =
     (\<exists>r' h'. res = Returns (r', h') \<and> extends h h' \<and> repr (\<lambda>p. length h \<le> p) h' r' t)"

section \<open>Facts about results and the store\<close>

lemma and_then_simps [simp]:
  "and_then (Returns x) f = f x"
  "and_then (Panics e) f = Panics e"
  "and_then Out_of_fuel f = Out_of_fuel"
  by (simp_all add: and_then_def)

lemma deref_simps [simp]:
  "deref h None = Panics Nil_dereference"
  "p < length h \<Longrightarrow> deref h (Some p) = Returns (h ! p)"
  "length h \<le> p \<Longrightarrow> deref h (Some p) = Panics Nil_dereference"
  by (simp_all add: deref_def)

section \<open>Facts about the machine integers\<close>

lemma not_neg_less_succ: "\<not> x <s 0 \<Longrightarrow> x < x + (1 :: 64 word)"
  by (metis add_cancel_right_right add_neg_numeral_special(8)
    inc_less_eq_self_iff_eq not_0_sless_minus_1 signed.antisym_conv3
    verit_comp_simplify1(3) zero_neq_one)

lemma MaxUint32_less_succ: "MaxUint32 < MaxUint32 + 1"
  by (simp add: MaxUint32_def)

lemma sint_of_int_range:
  assumes "- (2 ^ 63) \<le> k" "k < 2 ^ 63"
  shows "sint (word_of_int k :: 64 word) = k"
proof -
  have "sint (word_of_int k :: 64 word) = signed_take_bit 63 k"
    by (simp add: sint_sbintrunc')
  also have "\<dots> = k"
    using assms by (intro signed_take_bit_int_eq_self) simp_all
  finally show ?thesis .
qed

lemma sint_range64: "- (2 ^ 63) \<le> sint (w :: 64 word) \<and> sint w < 2 ^ 63"
  using sint_ge [of w] sint_lt [of w] by simp

lemma sdiv_nonneg: "0 \<le> a \<Longrightarrow> 0 < b \<Longrightarrow> (a::int) sdiv b = a div b"
  by (simp add: signed_divide_int_def sgn_if)

lemma uint_of_int_range:
  "0 \<le> k \<Longrightarrow> k < 2 ^ 63 \<Longrightarrow> uint (word_of_int k :: 64 word) = k"
  by (simp add: uint_word_of_int take_bit_int_eq_self)

section \<open>Facts about decimal texts\<close>

lemma of_char_nat_eqD: "(of_char c :: nat) = of_char d \<Longrightarrow> c = d"
  by (simp add: of_char_eq_iff)

lemma is_digit_cases:
  assumes "is_digit c"
  shows "c \<in> set ''0123456789''"
proof -
  have "(of_char c :: nat) \<in> {48, 49, 50, 51, 52, 53, 54, 55, 56, 57}"
    using assms unfolding is_digit_def by auto arith
  then have "(of_char c :: nat) \<in> of_char ` set ''0123456789''"
    by simp
  then show ?thesis
    by (auto dest: of_char_nat_eqD simp del: of_char_Char)
qed

lemma digit_char_val: "is_digit c \<Longrightarrow> digit_char (digit_val c) = c"
  by (drule is_digit_cases) (auto simp: digit_char_def digit_val_def)

lemma digit_val_less: "is_digit c \<Longrightarrow> digit_val c < 10"
  by (auto simp: is_digit_def digit_val_def)

lemma digit_val_pos: "is_digit c \<Longrightarrow> c \<noteq> CHR ''0'' \<Longrightarrow> 0 < digit_val c"
  using digit_char_val [of c] by (cases "digit_val c = 0") (auto simp: digit_char_def)

lemma is_digit_not_sign: "is_digit c \<Longrightarrow> c \<noteq> CHR ''-'' \<and> c \<noteq> CHR ''+''"
  by (auto simp: is_digit_def)

lemma digits_val_snoc: "digits_val (ds @ [c]) = 10 * digits_val ds + digit_val c"
  by (simp add: digits_val_def)

lemma digits_val_pos:
  "list_all is_digit ds \<Longrightarrow> ds \<noteq> [] \<Longrightarrow> hd ds \<noteq> CHR ''0'' \<Longrightarrow> 0 < digits_val ds"
proof (induction ds rule: rev_induct)
  case Nil
  then show ?case by simp
next
  case (snoc c ds)
  show ?case
  proof (cases "ds = []")
    case True
    with snoc.prems show ?thesis
      by (simp add: digits_val_def digit_val_pos)
  next
    case False
    with snoc have "0 < digits_val ds" by simp
    then show ?thesis by (simp add: digits_val_snoc)
  qed
qed

lemma digits_digits_val: "canonical ds \<Longrightarrow> digits (digits_val ds) = ds"
proof (induction ds rule: rev_induct)
  case Nil
  then show ?case by (simp add: canonical_def)
next
  case (snoc c ds)
  have c: "is_digit c" using snoc.prems by (simp add: canonical_def)
  show ?case
  proof (cases "ds = []")
    case True
    then show ?thesis
      using c digit_val_less [OF c] digit_char_val [OF c]
      by (simp add: digits_val_def digits.simps)
  next
    case False
    with snoc.prems have hd: "hd ds \<noteq> CHR ''0''" and dg: "list_all is_digit ds"
      by (auto simp: canonical_def)
    then have "canonical ds" using False by (simp add: canonical_def)
    then have ih: "digits (digits_val ds) = ds" by (rule snoc.IH)
    have pos: "0 < digits_val ds" using dg False hd by (rule digits_val_pos)
    have "digits (digits_val (ds @ [c])) =
            digits ((10 * digits_val ds + digit_val c) div 10)
              @ [digit_char ((10 * digits_val ds + digit_val c) mod 10)]"
      using pos by (subst digits.simps) (simp add: digits_val_snoc)
    also have "\<dots> = ds @ [c]"
      using digit_val_less [OF c] digit_char_val [OF c] ih by simp
    finally show ?thesis .
  qed
qed

lemma Atoi_digits:
  assumes "ds \<noteq> []" "list_all is_digit ds"
  shows "Atoi ds = (if 2 ^ 63 \<le> digits_val ds then (MaxInt64, True)
                    else (word_of_nat (digits_val ds), False))"
proof -
  obtain c r where ds: "ds = c # r" using assms(1) by (cases ds) auto
  then have "is_digit c" using assms(2) by simp
  then have "c \<noteq> CHR ''-''" "c \<noteq> CHR ''+''" using is_digit_not_sign by auto
  then show ?thesis using assms(2) unfolding ds by (simp add: Atoi_def)
qed

lemma sint_of_nat_range: "n < 2 ^ 63 \<Longrightarrow> sint (word_of_nat n :: go_int) = int n"
  using sint_of_int_range [of "int n"] by simp

lemma Itoa_Atoi_canonical:
  assumes "canonical ds" "digits_val ds < 2 ^ 63"
  shows "Itoa (fst (Atoi ds)) = ds"
proof -
  have "Atoi ds = (word_of_nat (digits_val ds), False)"
    using assms by (simp add: Atoi_digits canonical_def)
  then show ?thesis
    using assms by (simp add: Itoa_def sint_of_nat_range digits_digits_val)
qed


section \<open>The ranged integer\<close>

text \<open>What the constructors guarantee: \<open>from \<le> to\<close> and a step of at least 1.\<close>

lemma NewRangeInt_returns:
  "NewRangeInt lo hi = Returns p \<Longrightarrow> p = RangeInt lo hi 1 lo \<and> lo \<le>s hi"
  by (auto simp: NewRangeInt_def word_sle_eq word_sless_alt split: if_splits)

lemma NewRangeIntWithStep_returns:
  "NewRangeIntWithStep lo hi step = Returns p
     \<Longrightarrow> p = RangeInt lo hi step lo \<and> lo \<le>s hi \<and> 1 \<le>s step \<and> step \<noteq> 0"
  by (auto simp: NewRangeIntWithStep_def word_sle_eq word_sless_alt split: if_splits)

lemma RangeInt_perms:
  assumes "from \<le>s to" "1 \<le>s step"
    and "sint to - sint from < 2 ^ 63"
    and "(sint to - sint from) div sint step + 1 < 2 ^ 63"
  shows "Permutations (RangeInt from to step v) =
           Returns (word_of_int ((sint to - sint from) div sint step + 1))"
proof -
  have s: "0 < sint step" using assms(2) by (simp add: word_sle_eq)
  have d: "0 \<le> sint to - sint from" using assms(1) by (simp add: word_sle_eq)
  have "sint (to - from) = signed_take_bit 63 (sint to - sint from)"
    by (simp add: sint_word_ariths)
  also have "\<dots> = sint to - sint from"
    using d assms(3) by (intro signed_take_bit_int_eq_self) simp_all
  finally have sub: "sint (to - from) = sint to - sint from" .
  let ?q = "(sint to - sint from) div sint step"
  have q0: "0 \<le> ?q" using d s by (simp add: pos_imp_zdiv_nonneg_iff)
  have quo: "int_quo (to - from) step = word_of_int ?q"
    by (simp add: int_quo_def sub sdiv_nonneg [OF d s])
  have perms: "int_quo (to - from) step + 1 = word_of_int (?q + 1)"
    by (simp add: quo)
  have "sint (word_of_int (?q + 1) :: 64 word) = ?q + 1"
    using q0 assms(4) by (intro sint_of_int_range) simp_all
  then have "\<not> (word_of_int (?q + 1) :: 64 word) <s 0"
    using q0 by (simp add: word_sless_alt)
  moreover have "step \<noteq> 0" using s by auto
  ultimately show ?thesis by (simp add: perms Let_def)
qed

lemma RangeInt_value:
  assumes "from \<le>s to" "1 \<le>s step"
    and "0 \<le> j" "j * sint step \<le> sint to - sint from"
  shows "sint (from + word_of_int j * step :: go_int) = sint from + j * sint step"
proof -
  have s: "0 < sint step" using assms(2) by (simp add: word_sle_eq)
  have "from + word_of_int j * step = word_of_int (sint from + j * sint step)"
    by simp
  moreover have "sint from + j * sint step \<le> sint to" using assms(4) by simp
  moreover have "sint from \<le> sint from + j * sint step"
    using s assms(3) by simp
  ultimately show ?thesis
    using sint_range64 [of "from"] sint_range64 [of to]
    by (simp only: ) (intro sint_of_int_range; linarith)
qed



text \<open>
  Claim C5. For a ranged integer whose step is not zero (the constructors give a step of
  at least 1), \<open>Permutations\<close> returns a count \<open>n\<close>, and both \<open>Permutation(0)\<close> and
  \<open>Permutation(n + 1)\<close> return the index-out-of-bound error and leave every field of the
  token, its value included, as it was.
\<close>

theorem RangeInt_Permutation_out_of_bound:
  assumes "step \<noteq> 0"
  shows "\<exists>n. Permutations (RangeInt from to step v) = Returns n
      \<and> Permutation (RangeInt from to step v) 0
          = Returns (RangeInt from to step v, Some PermutationErrorIndexOutOfBound)
      \<and> Permutation (RangeInt from to step v) (n + 1)
          = Returns (RangeInt from to step v, Some PermutationErrorIndexOutOfBound)"
  using assms not_neg_less_succ [of "int_quo (to - from) step + 1"] MaxUint32_less_succ
  by (auto simp: check_index_def and_then_def Let_def)

theorem RangeInt_Permutation_out_of_bound_witness:
  "(2 :: go_int) \<noteq> 0 \<and> (\<exists>n. Permutations (RangeInt 1 10 2 7) = Returns n
      \<and> Permutation (RangeInt 1 10 2 7) 0
          = Returns (RangeInt 1 10 2 7, Some PermutationErrorIndexOutOfBound)
      \<and> Permutation (RangeInt 1 10 2 7) (n + 1)
          = Returns (RangeInt 1 10 2 7, Some PermutationErrorIndexOutOfBound))"
  using RangeInt_Permutation_out_of_bound [of 2 1 10 7] by simp

text \<open>
  Claim C4, as stated, fails where the subtraction or the increment overflows: for the
  range from 0 to the largest \<open>int\<close> with step 1 the count \<open>2 ^ 63\<close> wraps to a negative
  number and the guard of \<open>Permutations\<close> returns \<open>MaxUint32\<close>.
\<close>

theorem RangeInt_Permutations_overflow:
  "(0 :: go_int) \<le>s MaxInt64 \<and> (1 :: go_int) \<le>s 1
   \<and> Permutations (RangeInt 0 MaxInt64 1 0) = Returns MaxUint32
   \<and> Permutations (RangeInt 0 MaxInt64 1 0)
       \<noteq> Returns (word_of_int ((sint MaxInt64 - sint (0 :: go_int)) div sint (1 :: go_int) + 1))"
  by (simp add: int_quo_def MaxInt64_def MaxUint32_def word_sless_alt word_sle_eq)

text \<open>
  Claim C4, amended. For a ranged integer with \<open>from \<le> to\<close> and \<open>step \<ge> 1\<close> such that
  \<open>to - from\<close> and \<open>floor((to - from) / step) + 1\<close> are below \<open>2 ^ 63\<close>, \<open>Permutations\<close> returns
  \<open>floor((to - from) / step) + 1\<close>, and for every \<open>i\<close> from 1 to that count \<open>Permutation(i)\<close>
  succeeds and sets the value to \<open>from + (i - 1) * step\<close>, which lies between \<open>from\<close> and \<open>to\<close>
  at a multiple of \<open>step\<close> from \<open>from\<close>; \<open>String\<close> then renders that value.
\<close>

theorem RangeInt_Permutation_enumerates:
  assumes "from \<le>s to" "1 \<le>s step"
    and "sint to - sint from < 2 ^ 63"
    and "(sint to - sint from) div sint step + 1 < 2 ^ 63"
  shows "Permutations (RangeInt from to step v) =
           Returns (word_of_int ((sint to - sint from) div sint step + 1))
       \<and> (\<forall>i. 1 \<le> uint i \<and> uint i \<le> (sint to - sint from) div sint step + 1 \<longrightarrow>
            (\<exists>v'. Permutation (RangeInt from to step v) i = Returns (RangeInt from to step v', None)
                \<and> sint v' = sint from + (uint i - 1) * sint step
                \<and> sint from \<le> sint v' \<and> sint v' \<le> sint to
                \<and> sint step dvd sint v' - sint from
                \<and> (\<forall>h p k. p < length h \<and> h ! p = RangeInt from to step v'
                      \<longrightarrow> String (Suc k) h (Some p) = Returns (Itoa v'))))"
proof (intro conjI allI impI)
  show P: "Permutations (RangeInt from to step v) =
           Returns (word_of_int ((sint to - sint from) div sint step + 1))"
    by (rule RangeInt_perms [OF assms])
  fix i :: go_uint
  let ?q = "(sint to - sint from) div sint step"
  assume i: "1 \<le> uint i \<and> uint i \<le> ?q + 1"
  have s: "0 < sint step" using assms(2) by (simp add: word_sle_eq)
  have d: "0 \<le> sint to - sint from" using assms(1) by (simp add: word_sle_eq)
  have q0: "0 \<le> ?q" using d s by (simp add: pos_imp_zdiv_nonneg_iff)
  have up: "uint (word_of_int (?q + 1) :: 64 word) = ?q + 1"
    using q0 assms(4) by (intro uint_of_int_range) simp_all
  have i1: "\<not> i < 1" using i by (simp add: word_less_def)
  have i2: "\<not> (word_of_int (?q + 1) :: 64 word) < i"
    using i up by (simp add: word_less_def)
  have im: "i - 1 = word_of_int (uint i - 1)" by simp
  have j0: "0 \<le> uint i - 1" using i by simp
  have "(uint i - 1) * sint step \<le> ?q * sint step"
    using i s by (intro mult_right_mono) simp_all
  also have "\<dots> \<le> sint to - sint from"
    using pos_mod_sign [OF s, of "sint to - sint from"]
      div_mult_mod_eq [of "sint to - sint from" "sint step"] by linarith
  finally have jb: "(uint i - 1) * sint step \<le> sint to - sint from" .
  let ?v = "from + (i - 1) * step"
  have val: "sint ?v = sint from + (uint i - 1) * sint step"
    unfolding im by (rule RangeInt_value [OF assms(1,2) j0 jb])
  have perm: "Permutation (RangeInt from to step v) i = Returns (RangeInt from to step ?v, None)"
    unfolding Permutation.simps check_index_def P
    using i1 i2 by (simp add: and_then_def permutation_def)
  have lo: "sint from \<le> sint ?v" using val j0 s by simp
  have hi: "sint ?v \<le> sint to" using val jb by simp
  have dv: "sint step dvd sint ?v - sint from" by (simp add: val)
  show "\<exists>v'. Permutation (RangeInt from to step v) i = Returns (RangeInt from to step v', None)
                \<and> sint v' = sint from + (uint i - 1) * sint step
                \<and> sint from \<le> sint v' \<and> sint v' \<le> sint to
                \<and> sint step dvd sint v' - sint from
                \<and> (\<forall>h p k. p < length h \<and> h ! p = RangeInt from to step v'
                      \<longrightarrow> String (Suc k) h (Some p) = Returns (Itoa v'))"
    using perm val lo hi dv by (intro exI [of _ ?v]) simp
qed

theorem RangeInt_Permutation_enumerates_witness:
  "(1 :: go_int) \<le>s 10 \<and> (1 :: go_int) \<le>s 2
   \<and> sint (10 :: go_int) - sint (1 :: go_int) < 2 ^ 63
   \<and> (sint (10 :: go_int) - sint (1 :: go_int)) div sint (2 :: go_int) + 1 < 2 ^ 63
   \<and> Permutations (RangeInt 1 10 2 7) = Returns 5
   \<and> (\<exists>v'. Permutation (RangeInt 1 10 2 7) 3 = Returns (RangeInt 1 10 2 v', None)
         \<and> sint v' = 5 \<and> sint (1 :: go_int) \<le> sint v' \<and> sint v' \<le> sint (10 :: go_int))"
proof -
  have a: "(1 :: go_int) \<le>s 10" "(1 :: go_int) \<le>s 2"
    "sint (10 :: go_int) - sint (1 :: go_int) < 2 ^ 63"
    "(sint (10 :: go_int) - sint (1 :: go_int)) div sint (2 :: go_int) + 1 < 2 ^ 63"
    by (simp_all add: word_sle_eq)
  note t = RangeInt_Permutation_enumerates [OF a, of 7]
  from t have p: "Permutations (RangeInt 1 10 2 7) = Returns 5" by simp
  from t have "1 \<le> uint (3 :: go_uint) \<and> uint (3 :: go_uint) \<le> (sint (10 :: go_int) - sint (1 :: go_int)) div sint (2 :: go_int) + 1 \<longrightarrow>
            (\<exists>v'. Permutation (RangeInt 1 10 2 7) 3 = Returns (RangeInt 1 10 2 v', None)
                \<and> sint v' = sint (1 :: go_int) + (uint (3 :: go_uint) - 1) * sint (2 :: go_int)
                \<and> sint (1 :: go_int) \<le> sint v' \<and> sint v' \<le> sint (10 :: go_int)
                \<and> sint (2 :: go_int) dvd sint v' - sint (1 :: go_int)
                \<and> (\<forall>h p k. p < length h \<and> h ! p = RangeInt 1 10 2 v'
                      \<longrightarrow> String (Suc k) h (Some p) = Returns (Itoa v')))"
    by blast
  then have "\<exists>v'. Permutation (RangeInt 1 10 2 7) 3 = Returns (RangeInt 1 10 2 v', None)
         \<and> sint v' = 5 \<and> sint (1 :: go_int) \<le> sint v' \<and> sint v' \<le> sint (10 :: go_int)"
    by auto
  with a p show ?thesis by blast
qed

section \<open>Indices out of bound\<close>

text \<open>
  Claim C3, as stated, fails for the list: its \<open>Permutation\<close> panics at every index.
\<close>

theorem Least_Permutation_panics:
  "Permutation (Least_tok 2 (Some 0) [Some 1, Some 2]) 0 = Panics (Message ''TODO not implemented'')
   \<and> Permutation (Least_tok 2 (Some 0) [Some 1, Some 2]) 0 \<noteq> Returns (Least_tok 2 (Some 0) [Some 1, Some 2], Some PermutationErrorIndexOutOfBound)"
  by simp

text \<open>
  Claim C3, amended. For every constant, random and ranged integer and every arithmetic
  token, \<open>Permutations\<close> returns a count \<open>n\<close>, and \<open>Permutation(i)\<close> with \<open>i = 0\<close> or \<open>i > n\<close>
  returns the index-out-of-bound error, without a panic and with the token as it was. For
  the list \<open>Permutation\<close> panics at every index.
\<close>

theorem Permutation_index_out_of_bound:
  "(enumerable p \<longrightarrow>
      (\<exists>n. Permutations p = Returns n
         \<and> (\<forall>i. i = 0 \<or> n < i \<longrightarrow>
               Permutation p i = Returns (p, Some PermutationErrorIndexOutOfBound))))
   \<and> Permutation (Least_tok n t vs) i = Panics (Message ''TODO not implemented'')"
  by (cases p) (auto simp: enumerable_def check_index_def and_then_def Let_def)

theorem Permutation_index_out_of_bound_witness:
  "enumerable (AddArithmetic (Some 0) (Some 1))
   \<and> Permutations (AddArithmetic (Some 0) (Some 1)) = Returns 1
   \<and> Permutation (AddArithmetic (Some 0) (Some 1)) 0 = Returns (AddArithmetic (Some 0) (Some 1), Some PermutationErrorIndexOutOfBound)
   \<and> Permutation (AddArithmetic (Some 0) (Some 1)) 2 = Returns (AddArithmetic (Some 0) (Some 1), Some PermutationErrorIndexOutOfBound)
   \<and> Permutation (Least_tok 2 (Some 0) [Some 1, Some 2]) 3 = Panics (Message ''TODO not implemented'')"
  using Permutation_index_out_of_bound [of "AddArithmetic (Some 0) (Some 1)" 2 "Some 0" "[Some 1, Some 2]" 3] by (simp add: enumerable_def)

section \<open>Parsing a ranged integer\<close>

lemma Parse_loop_inv:
  assumes "Parse_loop pars to i v = Returns (i', v')"
    and "0 \<le> cur" "cur \<le> i"
    and "v = take (nat (i - cur)) (drop (nat cur) (Data pars))"
    and "length v = nat (i - cur)"
    and "list_all is_digit v"
  shows "i' = cur + int (length v') \<and> v' = take (length v') (drop (nat cur) (Data pars))
       \<and> list_all is_digit v' \<and> i' \<le> int (length (Data pars))"
  using assms
proof (induction pars to i v rule: Parse_loop.induct)
  case (1 pars to i v)
  let ?d = "Data pars"
  let ?c = "?d ! nat i"
  from "1.prems"(1) have inb: "0 \<le> i" "i < int (length ?d)"
    by (auto simp: Parse_loop.simps [of pars to i v] split: if_splits)
  then have unf: "Parse_loop pars to i v =
      (if \<not> is_digit ?c then Returns (i, v)
       else if to <s fst (Atoi (v @ [?c])) then Returns (i, v)
       else if i + 1 = DataLen pars then Returns (i + 1, v @ [?c])
       else Parse_loop pars to (i + 1) (v @ [?c]))"
    by (subst Parse_loop.simps) (simp add: Let_def)
  have app: "v @ [?c] = take (nat (i + 1 - cur)) (drop (nat cur) ?d)"
  proof -
    have "nat (i - cur) < length (drop (nat cur) ?d)" using inb "1.prems"(2,3) by simp
    then have "take (Suc (nat (i - cur))) (drop (nat cur) ?d)
         = take (nat (i - cur)) (drop (nat cur) ?d) @ [drop (nat cur) ?d ! nat (i - cur)]"
      by (rule take_Suc_conv_app_nth)
    moreover have "drop (nat cur) ?d ! nat (i - cur) = ?c"
      using inb "1.prems"(2,3) by (simp add: nat_add_distrib [symmetric])
    moreover have "Suc (nat (i - cur)) = nat (i + 1 - cur)" using "1.prems"(3) by simp
    ultimately show ?thesis using "1.prems"(4) by simp
  qed
  have len: "length (v @ [?c]) = nat (i + 1 - cur)" using "1.prems"(3,5) by simp
  have here: "i = cur + int (length v)" using "1.prems"(3,5) by simp
  have keep: "v = take (length v) (drop (nat cur) ?d)"
    by (subst "1.prems"(5)) (rule "1.prems"(4))
  have keep': "v @ [?c] = take (length (v @ [?c])) (drop (nat cur) ?d)"
    by (subst len) (rule app)
  have here': "i + 1 = cur + int (length (v @ [?c]))" using here by simp
  have fin: "\<And>j w. i' = j \<Longrightarrow> v' = w \<Longrightarrow> j = cur + int (length w)
      \<Longrightarrow> w = take (length w) (drop (nat cur) ?d) \<Longrightarrow> list_all is_digit w
      \<Longrightarrow> j \<le> int (length ?d) \<Longrightarrow> ?case"
    by blast
  have stop: "i' = i \<Longrightarrow> v' = v \<Longrightarrow> ?case"
    using here keep "1.prems"(6) inb(2) by (intro fin [of i v]) simp_all
  show ?case
  proof (cases "is_digit ?c")
    case False
    with "1.prems"(1) have "i' = i" "v' = v"
      unfolding unf by simp_all
    then show ?thesis by (rule stop)
  next
    case dig: True
    show ?thesis
    proof (cases "to <s fst (Atoi (v @ [?c]))")
      case True
      with "1.prems"(1) dig have "i' = i" "v' = v"
        unfolding unf by simp_all
      then show ?thesis by (rule stop)
    next
      case le: False
      show ?thesis
      proof (cases "i + 1 = DataLen pars")
        case True
        with "1.prems"(1) dig le have "i' = i + 1" "v' = v @ [?c]"
          unfolding unf by simp_all
        moreover have "list_all is_digit (v @ [?c])" using "1.prems"(6) dig by simp
        moreover have "i + 1 \<le> int (length ?d)" using inb(2) by simp 
        ultimately show ?thesis using here' keep' by (intro fin [of "i + 1" "v @ [?c]"])
      next
        case False
        with "1.prems"(1) dig le
        have rec: "Parse_loop pars to (i + 1) (v @ [?c]) = Returns (i', v')"
          unfolding unf by simp
        have digs: "list_all is_digit (v @ [?c])" using "1.prems"(6) dig by simp
        have c1: "cur \<le> i + 1" using "1.prems"(3) by simp
        have nb: "\<not> (i < 0 \<or> int (length ?d) \<le> i)" using inb by simp
        have dd: "\<not> \<not> is_digit ?c" using dig by simp
        show ?thesis
          by (rule "1.IH" [OF nb refl dd le False rec "1.prems"(2) c1 app len digs])
      qed
    qed
  qed
qed

lemma Parse_loop_returns:
  assumes "DataLen pars = int (length (Data pars))"
    and "0 \<le> i" "i < int (length (Data pars))"
  shows "\<exists>r. Parse_loop pars to i v = Returns r"
  using assms
proof (induction pars to i v rule: Parse_loop.induct)
  case (1 pars to i v)
  then show ?case
    by (subst Parse_loop.simps) (auto simp: Let_def)
qed

lemma unexpected_data_returns:
  assumes "0 \<le> cur" "cur \<le> int (length (Data pars))" "i < int (length (Data pars))"
  shows "unexpected_data p pars cur i = Returns (p, cur, [ParseErrorUnexpectedData])"
  using assms by (simp add: unexpected_data_def slice_def and_then_def Let_def)

lemmas evaluate = Parse_loop.simps and_then_def deref_def unexpected_data_def slice_def Atoi_def Itoa_def
  is_digit_def digits_val_def digit_val_def int_rem_def signed_modulo_int_def Let_def word_sless_alt
  digits.simps digit_char_def

text \<open>
  Claim C10, as stated, fails on leading zeros: the digits \<open>007\<close> are consumed, the value 7 is
  stored, and \<open>String\<close> renders \<open>7\<close>.
\<close>

theorem RangeInt_Parse_leading_zeros:
  "Parse (RangeInt 0 10 1 0) \<lparr>Data = ''007'', DataLen = 3\<rparr> 0 = Returns (RangeInt 0 10 1 7, 3, [])
   \<and> String (Suc 0) [RangeInt 0 10 1 7] (Some 0) = Returns ''7''
   \<and> ''7'' \<noteq> take 3 (drop 0 ''007'')"
  by (simp add: evaluate)

text \<open>
  Claim C10, amended. On a buffer of length \<open>DataLen\<close>, at a cursor inside it or at its end,
  \<open>Parse\<close> of a ranged integer (step not zero) returns. When it fails, the token with its
  value and the cursor are as before. When it succeeds, it has consumed a non-empty run
  \<open>ds\<close> of digits at the cursor, the new value is \<open>Atoi(ds)\<close> and \<open>String\<close> renders the decimal
  text of that number; this is \<open>ds\<close> itself when \<open>ds\<close> has no superfluous leading zero and is
  below \<open>2 ^ 63\<close>.
\<close>

theorem RangeInt_Parse_stores_value:
  assumes "0 \<le> cur" "cur \<le> int (length d)" "step \<noteq> 0"
  shows "\<exists>p' cur' errs.
      Parse (RangeInt from to step val) \<lparr>Data = d, DataLen = int (length d)\<rparr> cur
        = Returns (p', cur', errs)
    \<and> (errs \<noteq> [] \<longrightarrow> p' = RangeInt from to step val \<and> cur' = cur)
    \<and> (errs = [] \<longrightarrow>
         (\<exists>ds. ds \<noteq> [] \<and> list_all is_digit ds
            \<and> ds = take (length ds) (drop (nat cur) d)
            \<and> cur' = cur + int (length ds)
            \<and> p' = RangeInt from to step (fst (Atoi ds))
            \<and> (\<forall>h a k. a < length h \<and> h ! a = p' \<longrightarrow>
                  String (Suc k) h (Some a) = Returns (Itoa (fst (Atoi ds))))
            \<and> (canonical ds \<and> digits_val ds < 2 ^ 63 \<longrightarrow> Itoa (fst (Atoi ds)) = ds)))"
proof (cases "cur = int (length d)")
  case True
  then show ?thesis by simp
next
  case False
  let ?pars = "\<lparr>Data = d, DataLen = int (length d)\<rparr>"
  let ?p = "RangeInt from to step val"
  have lt: "cur < int (length (Data ?pars))" using False assms(2) by simp
  have dl: "DataLen ?pars = int (length (Data ?pars))" by simp
  obtain i v where loop: "Parse_loop ?pars to cur [] = Returns (i, v)"
    using Parse_loop_returns [OF dl assms(1) lt, of to "[]"] by auto
  have inv: "i = cur + int (length v)" "v = take (length v) (drop (nat cur) d)"
    "list_all is_digit v" "i \<le> int (length d)"
    using Parse_loop_inv [OF loop assms(1)] by simp_all
  have fail: "unexpected_data ?p ?pars cur (i - 1) = Returns (?p, cur, [ParseErrorUnexpectedData])"
    using inv(4) assms(1,2) by (intro unexpected_data_returns) simp_all
  let ?ci = "fst (Atoi v)"
  show ?thesis
  proof (cases "v = [] \<or> (?ci <s from \<or> to <s ?ci) \<or> int_rem ?ci step \<noteq> 0")
    case True
    then have "Parse ?p ?pars cur = Returns (?p, cur, [ParseErrorUnexpectedData])"
      using False loop fail assms(3) by (auto simp: and_then_def Let_def)
    then show ?thesis by simp
  next
    case ok: False
    then have "Parse ?p ?pars cur = Returns (RangeInt from to step ?ci, i - 1 + 1, [])"
      using False loop assms(3) by (auto simp: and_then_def Let_def)
    moreover have "v \<noteq> []" using ok by simp
    moreover have "canonical v \<and> digits_val v < 2 ^ 63 \<longrightarrow> Itoa ?ci = v"
      using Itoa_Atoi_canonical by blast
    ultimately show ?thesis
      using inv by (intro exI [of _ "RangeInt from to step ?ci"] exI [of _ "i - 1 + 1"] exI [of _ "[]"]) auto
  qed
qed

theorem RangeInt_Parse_stores_value_witness:
  "(0 :: int) \<le> 1 \<and> (1 :: int) \<le> int (length ''x99a'') \<and> (1 :: go_int) \<noteq> 0
   \<and> Parse (RangeInt 0 100 1 0) \<lparr>Data = ''x99a'', DataLen = int (length ''x99a'')\<rparr> 1
        = Returns (RangeInt 0 100 1 99, 3, [])
   \<and> Parse (RangeInt 0 100 1 0) \<lparr>Data = ''x99a'', DataLen = int (length ''x99a'')\<rparr> 0
        = Returns (RangeInt 0 100 1 0, 0, [ParseErrorUnexpectedData])
   \<and> (\<exists>p' cur' errs.
      Parse (RangeInt 0 100 1 0) \<lparr>Data = ''x99a'', DataLen = int (length ''x99a'')\<rparr> 1
        = Returns (p', cur', errs)
    \<and> (errs = [] \<longrightarrow>
         (\<exists>ds. ds \<noteq> [] \<and> cur' = 1 + int (length ds) \<and> p' = RangeInt 0 100 1 (fst (Atoi ds)))))"
  using RangeInt_Parse_stores_value [of 1 "''x99a''" 1 0 100 0]
  by (simp add: evaluate) blast

text \<open>
  Claim C1. \<open>Parse\<close> tests \<open>ci % step\<close>, not \<open>(ci - from) % step\<close>. For the range of the
  type's own comment, 1 to 10 with step 2, the text \<open>3\<close> is a candidate in the range at an
  even distance from \<open>from\<close>, and \<open>Permutation(2)\<close> sets the value 3; \<open>Parse\<close> rejects it with
  unexpected data, and accepts \<open>2\<close>, which \<open>Permutation\<close> never sets.
\<close>

theorem RangeInt_Parse_ignores_offset:
  "Parse (RangeInt 1 10 2 1) \<lparr>Data = ''3'', DataLen = 1\<rparr> 0
     = Returns (RangeInt 1 10 2 1, 0, [ParseErrorUnexpectedData])
   \<and> fst (Atoi ''3'') = 3 \<and> (1 :: go_int) \<le>s 3 \<and> (3 :: go_int) \<le>s 10
   \<and> sint (2 :: go_int) dvd sint (3 :: go_int) - sint (1 :: go_int)
   \<and> Permutation (RangeInt 1 10 2 1) 2 = Returns (RangeInt 1 10 2 3, None)
   \<and> Parse (RangeInt 1 10 2 1) \<lparr>Data = ''2'', DataLen = 1\<rparr> 0 = Returns (RangeInt 1 10 2 2, 1, [])"
  by (simp add: evaluate word_sle_eq int_quo_def check_index_def permutation_def)

section \<open>Parsing a constant integer\<close>



section \<open>Trees in the store\<close>

lemma extends_refl [simp]: "extends h h"
  by (simp add: extends_def)

lemma extends_trans: "extends h h1 \<Longrightarrow> extends h1 h2 \<Longrightarrow> extends h h2"
  by (auto simp: extends_def)

lemma extends_append [simp]: "extends h (h @ new)"
  by (simp add: extends_def)

lemma extends_snoc: "extends h h1 \<Longrightarrow> extends h (h1 @ new)"
  by (auto simp: extends_def)

lemma extends_length: "extends h h' \<Longrightarrow> length h \<le> length h'"
  by (auto simp: extends_def)

lemma extends_nth: "extends h h' \<Longrightarrow> p < length h \<Longrightarrow> h' ! p = h ! p"
  by (auto simp: extends_def nth_append)

lemma at_frame:
  assumes "at P h r A"
    and "\<And>p. P p \<Longrightarrow> p < length h \<Longrightarrow> Q p \<and> p < length h' \<and> h' ! p = h ! p"
    and "\<And>tok. A tok \<Longrightarrow> B tok"
  shows "at Q h' r B"
  using assms by (auto simp: at_def split: option.splits)

lemma repr_frame:
  assumes "repr P h r t"
    and "\<And>p. P p \<Longrightarrow> p < length h \<Longrightarrow> Q p \<and> p < length h' \<and> h' ! p = h ! p"
  shows "repr Q h' r t"
  using assms(1)
proof (induction t arbitrary: r)
  case (Least_tree n x xs)
  show ?case
    unfolding repr.simps
  proof (rule at_frame [OF Least_tree.prems [unfolded repr.simps] assms(2)])
    fix tok
    assume "case tok of Least_tok m t vs \<Rightarrow> m = n \<and> repr P h t x \<and> list_all2 (repr P h) vs xs
        | _ \<Rightarrow> False"
    then show "case tok of Least_tok m t vs \<Rightarrow> m = n \<and> repr Q h' t x \<and> list_all2 (repr Q h') vs xs
        | _ \<Rightarrow> False"
      using Least_tree.IH
      by (auto split: obj.splits elim!: list.rel_mono_strong)
  qed
qed (auto elim!: at_frame [OF _ assms(2)] split: obj.splits)


lemma repr_extends:
  "repr P h r t \<Longrightarrow> extends h h' \<Longrightarrow> (\<And>p. P p \<Longrightarrow> Q p) \<Longrightarrow> repr Q h' r t"
  by (erule repr_frame) (auto simp: extends_nth dest: extends_length)

lemma repr_append: "repr P h r t \<Longrightarrow> repr P (h @ new) r t"
  by (erule repr_extends) simp_all

lemma repr_fresh_trans:
  "repr (\<lambda>p. length h1 \<le> p) h2 r t \<Longrightarrow> extends h h1 \<Longrightarrow> extends h2 h3
     \<Longrightarrow> repr (\<lambda>p. length h \<le> p) h3 r t"
  by (erule repr_extends) (auto dest: extends_length)

lemma height_pos: "0 < height t"
  by (cases t) simp_all

lemma height_member: "x \<in> set xs \<Longrightarrow> height x \<le> foldr max (map height xs) 0"
  by (induction xs) auto

lemma clonedI:
  "res = Returns (r', h') \<Longrightarrow> extends h h' \<Longrightarrow> repr (\<lambda>p. length h \<le> p) h' r' t \<Longrightarrow> cloned h t res"
  by (auto simp: cloned_def)

lemma cloned_leaf:
  assumes "repr (\<lambda>p. p = length h) (h @ [tok]) (Some (length h)) t"
  shows "cloned h t (Returns (alloc h tok))"
  unfolding alloc_def
  by (rule clonedI [OF refl]) (auto intro: repr_frame [OF assms])

lemma cloned_pair:
  assumes x: "\<And>h. repr P h a x \<Longrightarrow> cloned h x (f h a)"
    and y: "\<And>h. repr P h b y \<Longrightarrow> cloned h y (f h b)"
    and a: "repr P h a x" and b: "repr P h b y"
    and t: "\<And>h3 a' b'. repr (\<lambda>p. length h \<le> p) h3 a' x \<Longrightarrow> repr (\<lambda>p. length h \<le> p) h3 b' y
        \<Longrightarrow> length h \<le> length h3 \<Longrightarrow> repr (\<lambda>p. length h \<le> p) (h3 @ [mk a' b']) (Some (length h3)) t"
  shows "cloned h t
     (and_then (f h a) (\<lambda>(a', h1). and_then (f h1 b) (\<lambda>(b', h2). Returns (alloc h2 (mk a' b')))))"
proof -
  obtain a' h1 where 1: "f h a = Returns (a', h1)" "extends h h1"
      "repr (\<lambda>p. length h \<le> p) h1 a' x"
    using x [OF a] by (auto simp: cloned_def)
  have b1: "repr P h1 b y" using b 1(2) by (rule repr_extends)
  obtain b' h2 where 2: "f h1 b = Returns (b', h2)" "extends h1 h2"
      "repr (\<lambda>p. length h1 \<le> p) h2 b' y"
    using y [OF b1] by (auto simp: cloned_def)
  have a3: "repr (\<lambda>p. length h \<le> p) h2 a' x" using 1(3) 2(2) by (rule repr_extends)
  have b3: "repr (\<lambda>p. length h \<le> p) h2 b' y"
    using 2(3) 1(2) by (rule repr_fresh_trans) simp
  show ?thesis
    unfolding 1(1) and_then_simps prod.case 2(1) alloc_def
    by (rule clonedI [OF refl])
      (auto intro: t a3 b3 extends_snoc [OF extends_trans [OF 1(2) 2(2)]]
            extends_length [OF extends_trans [OF 1(2) 2(2)]])
qed


lemma cloned_each:
  assumes "list_all2 (repr P h) vs xs"
    and "\<And>x h r. x \<in> set xs \<Longrightarrow> repr P h r x \<Longrightarrow> cloned h x (f h r)"
  shows "\<exists>vs' h'. each f vs h = Returns (vs', h') \<and> extends h h'
           \<and> list_all2 (repr (\<lambda>p. length h \<le> p) h') vs' xs"
  using assms
proof (induction vs arbitrary: xs h)
  case Nil
  then show ?case by simp
next
  case (Cons v vs)
  from Cons.prems(1) obtain x xs' where xs: "xs = x # xs'" and v: "repr P h v x"
      and rest: "list_all2 (repr P h) vs xs'"
    by (auto simp: list_all2_Cons1)
  obtain v' h1 where 1: "f h v = Returns (v', h1)" "extends h h1"
      "repr (\<lambda>p. length h \<le> p) h1 v' x"
    using Cons.prems(2) [OF _ v] xs by (auto simp: cloned_def)
  have "list_all2 (repr P h1) vs xs'"
    using rest 1(2) by (auto elim!: list.rel_mono_strong intro: repr_extends)
  then obtain vs' h2 where 2: "each f vs h1 = Returns (vs', h2)" "extends h1 h2"
      "list_all2 (repr (\<lambda>p. length h1 \<le> p) h2) vs' xs'"
    using Cons.IH [of h1 xs'] Cons.prems(2) xs by auto
  have "repr (\<lambda>p. length h \<le> p) h2 v' x" using 1(3) 2(2) by (rule repr_extends)
  moreover have "list_all2 (repr (\<lambda>p. length h \<le> p) h2) vs' xs'"
    using 2(3) 1(2) by (auto elim!: list.rel_mono_strong intro: repr_fresh_trans)
  ultimately show ?case
    using 1(1,2) 2(1,2) xs by (auto intro: extends_trans)
qed

lemma repr_SomeE:
  assumes "repr P h r t"
  obtains p where "r = Some p" "p < length h" "P p"
  using assms by (cases t; cases r) (auto simp: at_def)

lemma Clone_cloned: "repr P h r t \<Longrightarrow> height t \<le> k \<Longrightarrow> cloned h t (Clone k h r)"
proof (induction t arbitrary: h r k)
  case (ConstantInt_tree v)
  then show ?case
    by (cases k) (auto simp: at_def split: option.splits intro!: cloned_leaf)
next
  case (RandomInt_tree v)
  then show ?case
    by (cases k) (auto simp: at_def split: option.splits intro!: cloned_leaf)
next
  case (RangeInt_tree lo hi st v)
  then show ?case
    by (cases k) (auto simp: at_def split: option.splits intro!: cloned_leaf)
next
  case (AddArithmetic_tree x y)
  then show ?case
    apply (cases k; clarsimp simp: at_def split: option.splits obj.splits)
    apply (rule cloned_pair [where P = P and x = x and y = y])
    apply (auto simp: at_def intro: repr_append)
    done
next
  case (SubArithmetic_tree x y)
  then show ?case
    apply (cases k; clarsimp simp: at_def split: option.splits obj.splits)
    apply (rule cloned_pair [where P = P and x = x and y = y])
    apply (auto simp: at_def intro: repr_append)
    done
next
  case (MulArithmetic_tree x y)
  then show ?case
    apply (cases k; clarsimp simp: at_def split: option.splits obj.splits)
    apply (rule cloned_pair [where P = P and x = x and y = y])
    apply (auto simp: at_def intro: repr_append)
    done
next
  case (DivArithmetic_tree x y)
  then show ?case
    apply (cases k; clarsimp simp: at_def split: option.splits obj.splits)
    apply (rule cloned_pair [where P = P and x = x and y = y])
    apply (auto simp: at_def intro: repr_append)
    done
next
  case (Least_tree n x xs)
  obtain k' where k: "k = Suc k'" using Least_tree.prems(2) by (cases k) auto
  obtain p t vs where r: "r = Some p" "p < length h" "h ! p = Least_tok n t vs"
      and t: "repr P h t x" and vs: "list_all2 (repr P h) vs xs"
    using Least_tree.prems(1) by (auto simp: at_def split: option.splits obj.splits)
  have hx: "height x \<le> k'" and hxs: "\<And>y. y \<in> set xs \<Longrightarrow> height y \<le> k'"
    using Least_tree.prems(2) k height_member [of _ xs] by (auto simp: le_max_iff_disj dest: order_trans)
  obtain t' h1 where 1: "Clone k' h t = Returns (t', h1)" "extends h h1"
      "repr (\<lambda>p. length h \<le> p) h1 t' x"
    using Least_tree.IH(1) [OF t hx] by (auto simp: cloned_def)
  have "list_all2 (repr P h1) vs xs"
    using vs 1(2) by (auto elim!: list.rel_mono_strong intro: repr_extends)
  then obtain vs' h2 where 2: "each (Clone k') vs h1 = Returns (vs', h2)" "extends h1 h2"
      "list_all2 (repr (\<lambda>p. length h1 \<le> p) h2) vs' xs"
    using cloned_each [of P h1 vs xs "Clone k'"] Least_tree.IH(2) hxs by blast
  have e: "extends h h2" using 1(2) 2(2) by (rule extends_trans)
  have "repr (\<lambda>p. length h \<le> p) (h2 @ [Least_tok n t' vs']) t' x"
    using 1(3) 2(2) by (auto intro: repr_extends extends_snoc)
  moreover have "list_all2 (repr (\<lambda>p. length h \<le> p) (h2 @ [Least_tok n t' vs'])) vs' xs"
    using 2(3) 1(2) by (auto elim!: list.rel_mono_strong intro: repr_fresh_trans)
  ultimately have "repr (\<lambda>p. length h \<le> p) (h2 @ [Least_tok n t' vs']) (Some (length h2))
      (Least_tree n x xs)"
    using extends_length [OF e] by (simp add: at_def)
  then show ?case
    unfolding k r(1) Clone.simps using r(2,3) 1(1) 2(1) e
    by (auto simp: alloc_def intro!: clonedI [OF refl] extends_snoc)
qed


lemma foldl_String_render:
  assumes "list_all2 (\<lambda>v x. f v = g x) vs xs"
  shows "foldl (\<lambda>buffer tok. and_then buffer (\<lambda>written. and_then (f tok) (\<lambda>s. Returns (written @ s)))) acc vs
       = foldl (\<lambda>buffer t. and_then buffer (\<lambda>written. and_then (g t) (\<lambda>s. Returns (written @ s)))) acc xs"
  using assms by (induction vs arbitrary: xs acc) (auto simp: list_all2_Cons1)

lemma String_render: "repr P h r t \<Longrightarrow> height t \<le> k \<Longrightarrow> String k h r = render t"
proof (induction t arbitrary: r k)
  case (ConstantInt_tree v)
  then show ?case by (cases k) (auto simp: at_def split: option.splits)
next
  case (RandomInt_tree v)
  then show ?case by (cases k) (auto simp: at_def split: option.splits)
next
  case (RangeInt_tree lo hi st v)
  then show ?case by (cases k) (auto simp: at_def split: option.splits)
next
  case (AddArithmetic_tree x y)
  obtain k' where k: "k = Suc k'" using AddArithmetic_tree.prems(2) by (cases k) auto
  obtain p a b where r: "r = Some p" "p < length h" "h ! p = AddArithmetic a b"
      and ab: "repr P h a x" "repr P h b y"
    using AddArithmetic_tree.prems(1) by (auto simp: at_def split: option.splits obj.splits)
  have "String k' h a = render x" "String k' h b = render y"
    using AddArithmetic_tree.IH ab AddArithmetic_tree.prems(2) k by simp_all
  then show ?case unfolding k r(1) using r(2,3) by simp
next
  case (SubArithmetic_tree x y)
  obtain k' where k: "k = Suc k'" using SubArithmetic_tree.prems(2) by (cases k) auto
  obtain p a b where r: "r = Some p" "p < length h" "h ! p = SubArithmetic a b"
      and ab: "repr P h a x" "repr P h b y"
    using SubArithmetic_tree.prems(1) by (auto simp: at_def split: option.splits obj.splits)
  have "String k' h a = render x" "String k' h b = render y"
    using SubArithmetic_tree.IH ab SubArithmetic_tree.prems(2) k by simp_all
  then show ?case unfolding k r(1) using r(2,3) by simp
next
  case (MulArithmetic_tree x y)
  obtain k' where k: "k = Suc k'" using MulArithmetic_tree.prems(2) by (cases k) auto
  obtain p a b where r: "r = Some p" "p < length h" "h ! p = MulArithmetic a b"
      and ab: "repr P h a x" "repr P h b y"
    using MulArithmetic_tree.prems(1) by (auto simp: at_def split: option.splits obj.splits)
  have "String k' h a = render x" "String k' h b = render y"
    using MulArithmetic_tree.IH ab MulArithmetic_tree.prems(2) k by simp_all
  then show ?case unfolding k r(1) using r(2,3) by simp
next
  case (DivArithmetic_tree x y)
  obtain k' where k: "k = Suc k'" using DivArithmetic_tree.prems(2) by (cases k) auto
  obtain p a b where r: "r = Some p" "p < length h" "h ! p = DivArithmetic a b"
      and ab: "repr P h a x" "repr P h b y"
    using DivArithmetic_tree.prems(1) by (auto simp: at_def split: option.splits obj.splits)
  have "String k' h a = render x" "String k' h b = render y"
    using DivArithmetic_tree.IH ab DivArithmetic_tree.prems(2) k by simp_all
  then show ?case unfolding k r(1) using r(2,3) by simp
next
  case (Least_tree n x xs)
  obtain k' where k: "k = Suc k'" using Least_tree.prems(2) by (cases k) auto
  obtain p t vs where r: "r = Some p" "p < length h" "h ! p = Least_tok n t vs"
      and vs: "list_all2 (repr P h) vs xs"
    using Least_tree.prems(1) by (auto simp: at_def split: option.splits obj.splits)
  have "\<And>y. y \<in> set xs \<Longrightarrow> height y \<le> k'"
    using Least_tree.prems(2) k height_member [of _ xs] by (auto simp: le_max_iff_disj dest: order_trans)
  then have "list_all2 (\<lambda>v x. String k' h v = render x) vs xs"
    using vs Least_tree.IH(2) by (auto elim!: list.rel_mono_strong)
  then show ?case
    unfolding k r(1) using r(2,3) by (simp add: foldl_String_render)
qed

lemma atoi_or_panic_fuel [simp]: "atoi_or_panic s \<noteq> Out_of_fuel"
  by (simp add: atoi_or_panic_def split: prod.splits bool.splits)

lemma and_then_fuel:
  "and_then m f = Out_of_fuel \<longleftrightarrow> m = Out_of_fuel \<or> (\<exists>x. m = Returns x \<and> f x = Out_of_fuel)"
  by (cases m) auto

lemma foldl_render_fuel:
  assumes "\<And>x. x \<in> set xs \<Longrightarrow> g x \<noteq> Out_of_fuel" "acc \<noteq> Out_of_fuel"
  shows "foldl (\<lambda>buffer t. and_then buffer (\<lambda>written. and_then (g t) (\<lambda>s. Returns (written @ s)))) acc xs
           \<noteq> Out_of_fuel"
  using assms
proof (induction xs arbitrary: acc)
  case Nil
  then show ?case by simp
next
  case (Cons x xs)
  have "and_then acc (\<lambda>written. and_then (g x) (\<lambda>s. Returns (written @ s))) \<noteq> Out_of_fuel"
    using Cons.prems by (simp add: and_then_fuel)
  then show ?case using Cons.IH Cons.prems(1) by simp
qed

lemma render_fuel: "render t \<noteq> Out_of_fuel"
proof (induction t)
  case (Least_tree n x xs)
  then show ?case by (simp add: foldl_render_fuel)
qed (simp_all add: and_then_fuel)

section \<open>Clone\<close>

text \<open>
  Claim C7. Let the tokens reachable from \<open>r\<close> form a tree \<open>t\<close>, and let the fuel cover its
  height. Then \<open>Clone\<close> returns a reference \<open>r'\<close> in a store \<open>h'\<close> that keeps every object of
  the old store; \<open>r'\<close> is the same tree \<open>t\<close>, and each of its objects lies at an address
  the old store does not have, so the clone shares no object with the original; its
  rendered text is the original's (a text or a panic, not a missing result). Whatever is
  done afterwards to the objects of the clone or to objects made later, in any store
  \<open>h''\<close> that still holds the objects of the old store as they were, the original renders
  as before.
\<close>

theorem Clone_shares_nothing:
  assumes "repr P h r t" and "height t \<le> k"
  shows "\<exists>r' h'. Clone k h r = Returns (r', h')
      \<and> extends h h'
      \<and> repr (\<lambda>p. length h \<le> p) h' r' t
      \<and> String k h' r' = String k h r
      \<and> String k h r \<noteq> Out_of_fuel
      \<and> (\<forall>h''. (\<forall>p < length h. p < length h'' \<and> h'' ! p = h ! p)
            \<longrightarrow> String k h'' r = String k h r)"
proof -
  obtain r' h' where c: "Clone k h r = Returns (r', h')" "extends h h'"
      "repr (\<lambda>p. length h \<le> p) h' r' t"
    using Clone_cloned [OF assms] by (auto simp: cloned_def)
  have s: "String k h r = render t" using assms by (rule String_render)
  have "String k h' r' = render t" using c(3) assms(2) by (rule String_render)
  moreover have "String k h'' r = render t"
    if "\<forall>p < length h. p < length h'' \<and> h'' ! p = h ! p" for h''
  proof -
    have "repr P h'' r t" using assms(1) that by (auto intro: repr_frame)
    then show ?thesis using assms(2) by (rule String_render)
  qed
  ultimately show ?thesis using c s render_fuel [of t] by auto
qed

theorem Clone_shares_nothing_witness:
  "repr (\<lambda>_. True) [ConstantInt 3, ConstantInt 4, AddArithmetic (Some 0) (Some 1)] (Some 2)
      (AddArithmetic_tree (ConstantInt_tree 3) (ConstantInt_tree 4))
   \<and> height (AddArithmetic_tree (ConstantInt_tree 3) (ConstantInt_tree 4)) \<le> Suc (Suc 0)
   \<and> Clone (Suc (Suc 0)) [ConstantInt 3, ConstantInt 4, AddArithmetic (Some 0) (Some 1)] (Some 2)
       = Returns (Some 5, [ConstantInt 3, ConstantInt 4, AddArithmetic (Some 0) (Some 1),
                           ConstantInt 3, ConstantInt 4, AddArithmetic (Some 3) (Some 4)])
   \<and> String (Suc (Suc 0)) [ConstantInt 3, ConstantInt 4, AddArithmetic (Some 0) (Some 1)] (Some 2)
       = Returns ''7''
   \<and> String (Suc (Suc 0)) [ConstantInt 3, ConstantInt 4, AddArithmetic (Some 0) (Some 1),
                           ConstantInt 9, ConstantInt 4, AddArithmetic (Some 3) (Some 4)] (Some 5)
       = Returns ''13''
   \<and> String (Suc (Suc 0)) [ConstantInt 3, ConstantInt 4, AddArithmetic (Some 0) (Some 1),
                           ConstantInt 9, ConstantInt 4, AddArithmetic (Some 3) (Some 4)] (Some 2)
       = Returns ''7''"
  using Clone_shares_nothing [of "\<lambda>_. True" "[ConstantInt 3, ConstantInt 4, AddArithmetic (Some 0) (Some 1)]"
      "Some 2" "AddArithmetic_tree (ConstantInt_tree 3) (ConstantInt_tree 4)" "Suc (Suc 0)"]
  by (simp add: at_def alloc_def atoi_or_panic_def evaluate)

section \<open>PermutationsAll\<close>

lemma own_permutations_simps [simp]:
  "own_permutations (ConstantInt v) = 1"
  "own_permutations (RandomInt v) = 1"
  "own_permutations (AddArithmetic a b) = 1"
  "own_permutations (SubArithmetic a b) = 1"
  "own_permutations (MulArithmetic a b) = 1"
  "own_permutations (DivArithmetic a b) = 1"
  by (simp_all add: own_permutations_def)

lemma own_permutations_RangeInt:
  "step \<noteq> 0 \<Longrightarrow> Permutations (RangeInt lo hi step v)
     = Returns (word_of_nat (own_permutations (RangeInt lo hi step v)))"
  by (simp add: own_permutations_def Let_def)

lemma PermutationsAll_product:
  "repr P h r t \<Longrightarrow> height t \<le> k \<Longrightarrow> enumerable_tree t
     \<Longrightarrow> PermutationsAll k h r = Returns (word_of_nat (product_of_permutations t))"
proof (induction t arbitrary: r k)
  case (ConstantInt_tree v)
  then show ?case by (cases k) (auto simp: at_def split: option.splits)
next
  case (RandomInt_tree v)
  then show ?case by (cases k) (auto simp: at_def split: option.splits)
next
  case (RangeInt_tree lo hi st v)
  then show ?case
    by (cases k) (auto simp: at_def own_permutations_RangeInt simp del: Permutations.simps split: option.splits)
next
  case (AddArithmetic_tree x y)
  obtain k' where k: "k = Suc k'" using AddArithmetic_tree.prems(2) by (cases k) auto
  obtain p a b where r: "r = Some p" "p < length h" "h ! p = AddArithmetic a b"
      and ab: "repr P h a x" "repr P h b y"
    using AddArithmetic_tree.prems(1) by (auto simp: at_def split: option.splits obj.splits)
  have "PermutationsAll k' h a = Returns (word_of_nat (product_of_permutations x))"
    "PermutationsAll k' h b = Returns (word_of_nat (product_of_permutations y))"
    using AddArithmetic_tree.IH ab AddArithmetic_tree.prems(2,3) k by simp_all
  then show ?case unfolding k r(1) using r(2,3) by simp
next
  case (SubArithmetic_tree x y)
  obtain k' where k: "k = Suc k'" using SubArithmetic_tree.prems(2) by (cases k) auto
  obtain p a b where r: "r = Some p" "p < length h" "h ! p = SubArithmetic a b"
      and ab: "repr P h a x" "repr P h b y"
    using SubArithmetic_tree.prems(1) by (auto simp: at_def split: option.splits obj.splits)
  have "PermutationsAll k' h a = Returns (word_of_nat (product_of_permutations x))"
    "PermutationsAll k' h b = Returns (word_of_nat (product_of_permutations y))"
    using SubArithmetic_tree.IH ab SubArithmetic_tree.prems(2,3) k by simp_all
  then show ?case unfolding k r(1) using r(2,3) by simp
next
  case (MulArithmetic_tree x y)
  obtain k' where k: "k = Suc k'" using MulArithmetic_tree.prems(2) by (cases k) auto
  obtain p a b where r: "r = Some p" "p < length h" "h ! p = MulArithmetic a b"
      and ab: "repr P h a x" "repr P h b y"
    using MulArithmetic_tree.prems(1) by (auto simp: at_def split: option.splits obj.splits)
  have "PermutationsAll k' h a = Returns (word_of_nat (product_of_permutations x))"
    "PermutationsAll k' h b = Returns (word_of_nat (product_of_permutations y))"
    using MulArithmetic_tree.IH ab MulArithmetic_tree.prems(2,3) k by simp_all
  then show ?case unfolding k r(1) using r(2,3) by simp
next
  case (DivArithmetic_tree x y)
  obtain k' where k: "k = Suc k'" using DivArithmetic_tree.prems(2) by (cases k) auto
  obtain p a b where r: "r = Some p" "p < length h" "h ! p = DivArithmetic a b"
      and ab: "repr P h a x" "repr P h b y"
    using DivArithmetic_tree.prems(1) by (auto simp: at_def split: option.splits obj.splits)
  have "PermutationsAll k' h a = Returns (word_of_nat (product_of_permutations x))"
    "PermutationsAll k' h b = Returns (word_of_nat (product_of_permutations y))"
    using DivArithmetic_tree.IH ab DivArithmetic_tree.prems(2,3) k by simp_all
  then show ?case unfolding k r(1) using r(2,3) by simp
next
  case (Least_tree n x xs)
  then show ?case by simp
qed

text \<open>
  Claim C2, as stated, fails where the product overflows: two ranges from 0 to
  \<open>4294967295\<close> have \<open>2 ^ 32\<close> permutations each, their sum token has one of its own, the
  product \<open>2 ^ 64\<close> does not fit, and \<open>PermutationsAll\<close> returns 0, the wrapped product and
  not a largest value.
\<close>

theorem PermutationsAll_overflow:
  "NewRangeInt 0 4294967295 = Returns (RangeInt 0 4294967295 1 0)
   \<and> PermutationsAll (Suc 0)
        [RangeInt 0 4294967295 1 0, RangeInt 0 4294967295 1 0, AddArithmetic (Some 0) (Some 1)] (Some 0)
       = Returns 4294967296
   \<and> PermutationsAll (Suc 0)
        [RangeInt 0 4294967295 1 0, RangeInt 0 4294967295 1 0, AddArithmetic (Some 0) (Some 1)] (Some 1)
       = Returns 4294967296
   \<and> Permutations (AddArithmetic (Some 0) (Some 1)) = Returns 1
   \<and> PermutationsAll (Suc (Suc 0))
        [RangeInt 0 4294967295 1 0, RangeInt 0 4294967295 1 0, AddArithmetic (Some 0) (Some 1)] (Some 2)
       = Returns 0
   \<and> (1 :: nat) * (4294967296 * 4294967296) = 2 ^ 64"
  by (simp add: NewRangeInt_def int_quo_def word_sless_alt)

text \<open>
  Claim C2, amended. For every tree of constant, random and ranged integers (step not
  zero) and arithmetic tokens, \<open>PermutationsAll\<close> returns, given fuel for the height of the
  tree, the token's \<open>Permutations\<close> times the product of the counts of its children,
  reduced modulo \<open>2 ^ 64\<close>: the multiplication wraps around and nothing saturates. For the
  list \<open>PermutationsAll\<close> panics.
\<close>

theorem PermutationsAll_wraps:
  "(repr P h r t \<and> height t \<le> k \<and> enumerable_tree t \<longrightarrow>
      (\<exists>n. PermutationsAll k h r = Returns n
         \<and> unat n = product_of_permutations t mod 2 ^ 64))
   \<and> (deref h l = Returns (Least_tok m tok vs) \<longrightarrow>
        PermutationsAll (Suc k) h l = Panics (Message ''TODO this might be hard to fit in 64bit''))"
  using PermutationsAll_product [of P h r t k] by (auto simp: unat_of_nat)

theorem PermutationsAll_wraps_witness:
  "repr (\<lambda>_. True)
      [RangeInt 1 10 2 1, ConstantInt 4, MulArithmetic (Some 0) (Some 1), Least_tok 0 None []] (Some 2)
      (MulArithmetic_tree (RangeInt_tree 1 10 2 1) (ConstantInt_tree 4))
   \<and> height (MulArithmetic_tree (RangeInt_tree 1 10 2 1) (ConstantInt_tree 4)) \<le> Suc (Suc 0)
   \<and> enumerable_tree (MulArithmetic_tree (RangeInt_tree 1 10 2 1) (ConstantInt_tree 4))
   \<and> PermutationsAll (Suc (Suc 0))
        [RangeInt 1 10 2 1, ConstantInt 4, MulArithmetic (Some 0) (Some 1), Least_tok 0 None []] (Some 2)
       = Returns 5
   \<and> product_of_permutations (MulArithmetic_tree (RangeInt_tree 1 10 2 1) (ConstantInt_tree 4)) = 5
   \<and> deref [RangeInt 1 10 2 1, ConstantInt 4, MulArithmetic (Some 0) (Some 1), Least_tok 0 None []] (Some 3)
       = Returns (Least_tok 0 None [])
   \<and> PermutationsAll (Suc (Suc (Suc 0)))
        [RangeInt 1 10 2 1, ConstantInt 4, MulArithmetic (Some 0) (Some 1), Least_tok 0 None []] (Some 3)
       = Panics (Message ''TODO this might be hard to fit in 64bit'')"
  using PermutationsAll_wraps [where P = "\<lambda>_. True"
      and h = "[RangeInt 1 10 2 1, ConstantInt 4, MulArithmetic (Some 0) (Some 1), Least_tok 0 None []]"
      and r = "Some 2" and t = "MulArithmetic_tree (RangeInt_tree 1 10 2 1) (ConstantInt_tree 4)"
      and k = "Suc (Suc 0)" and l = "Some 3" and m = 0 and tok = None and vs = "[]"]
  by (simp add: at_def int_quo_def word_sless_alt own_permutations_def)

section \<open>The list of at least n tokens\<close>

text \<open>\<open>NewLeast\<close> panics on a negative \<open>n\<close>; otherwise it builds a list of \<open>n\<close> clones of the
  token.\<close>

lemma NewLeast_negative: "n <s 0 \<Longrightarrow> NewLeast k h tok n = Panics Makeslice_len_out_of_range"
  by (simp add: NewLeast_def)

lemma NewLeast_returns:
  assumes "repr P h tok t" "height t \<le> k" "\<not> n <s 0"
  shows "\<exists>l h' vs. NewLeast k h tok n = Returns (Some l, h') \<and> extends h h'
      \<and> l < length h' \<and> h' ! l = Least_tok n tok vs \<and> length vs = nat (sint n)
      \<and> (\<forall>v \<in> set vs. repr (\<lambda>p. length h \<le> p) h' v t)"
proof -
  let ?m = "nat (sint n)"
  have "list_all2 (repr P h) (replicate ?m tok) (replicate ?m t)"
    using assms(1) by (simp add: list_all2_conv_all_nth)
  moreover have "\<And>x h r. x \<in> set (replicate ?m t) \<Longrightarrow> repr P h r x \<Longrightarrow> cloned h x (Clone k h r)"
    using assms(2) by (auto intro: Clone_cloned)
  ultimately obtain vs h1 where e: "each (Clone k) (replicate ?m tok) h = Returns (vs, h1)"
      "extends h h1" "list_all2 (repr (\<lambda>p. length h \<le> p) h1) vs (replicate ?m t)"
    using cloned_each [of P h "replicate ?m tok" "replicate ?m t" "Clone k"] by blast
  have len: "length vs = ?m" using e(3) by (auto dest: list_all2_lengthD)
  have "\<forall>v \<in> set vs. repr (\<lambda>p. length h \<le> p) (h1 @ [Least_tok n tok vs]) v t"
    using e(3) len by (auto simp: list_all2_conv_all_nth in_set_conv_nth intro!: repr_append)
  then show ?thesis
    using assms(3) e(1,2) len by (auto simp: NewLeast_def alloc_def intro: extends_snoc)
qed




text \<open>
  Claim C9. For a list with \<open>n = 0\<close>: \<open>IsOptional\<close> is true; \<open>Deactivate\<close> leaves it with length 0,
  rendering the empty text; \<open>Activate\<close> (the template being a token tree \<open>t\<close>) leaves it with
  length 1, its one element being the tree \<open>t\<close> made of new objects, a clone of the
  template. For a list with \<open>n > 0\<close>, \<open>IsOptional\<close> is false and \<open>Activate\<close> and \<open>Deactivate\<close> return
  the store as it was.
\<close>

theorem Least_optional:
  assumes "p < length h" "h ! p = Least_tok n tok vs"
  shows "(n = 0 \<longrightarrow>
           IsOptional h (Some p) = Returns True
         \<and> (\<exists>h'. Deactivate h (Some p) = Returns h'
               \<and> Len h' (Some p) = Returns 0
               \<and> String (Suc k) h' (Some p) = Returns [])
         \<and> (repr P h tok t \<and> height t \<le> k \<longrightarrow>
              (\<exists>h' c. Activate k h (Some p) = Returns h'
                 \<and> Len h' (Some p) = Returns 1
                 \<and> h' ! p = Least_tok n tok [c]
                 \<and> repr (\<lambda>x. length h \<le> x) h' c t
                 \<and> (\<forall>x < length h. x \<noteq> p \<longrightarrow> h' ! x = h ! x))))
       \<and> (0 <s n \<longrightarrow>
           IsOptional h (Some p) = Returns False
         \<and> Activate k h (Some p) = Returns h
         \<and> Deactivate h (Some p) = Returns h)"
proof (intro conjI impI)
  assume n: "n = 0"
  show "IsOptional h (Some p) = Returns True"
    using assms n by (simp add: IsOptional_def)
  show "\<exists>h'. Deactivate h (Some p) = Returns h' \<and> Len h' (Some p) = Returns 0
               \<and> String (Suc k) h' (Some p) = Returns []"
    using assms n by (simp add: Deactivate_def Len_def)
  assume t: "repr P h tok t \<and> height t \<le> k"
  then obtain c h1 where c: "Clone k h tok = Returns (c, h1)" "extends h h1"
      "repr (\<lambda>x. length h \<le> x) h1 c t"
    using Clone_cloned [of P h tok t k] by (auto simp: cloned_def)
  let ?h' = "h1[p := Least_tok n tok [c]]"
  have len1: "length h \<le> length h1" using c(2) by (rule extends_length)
  have "Activate k h (Some p) = Returns ?h'"
    using assms n c(1) by (simp add: Activate_def)
  moreover have "Len ?h' (Some p) = Returns 1" using assms(1) len1 by (simp add: Len_def)
  moreover have "?h' ! p = Least_tok n tok [c]" using assms(1) len1 by simp
  moreover have "repr (\<lambda>x. length h \<le> x) ?h' c t"
    using c(3) by (rule repr_frame) (use assms(1) in auto)
  moreover have "\<forall>x < length h. x \<noteq> p \<longrightarrow> ?h' ! x = h ! x"
    using c(2) by (simp add: extends_nth)
  ultimately show "\<exists>h' c. Activate k h (Some p) = Returns h'
                 \<and> Len h' (Some p) = Returns 1
                 \<and> h' ! p = Least_tok n tok [c]
                 \<and> repr (\<lambda>x. length h \<le> x) h' c t
                 \<and> (\<forall>x < length h. x \<noteq> p \<longrightarrow> h' ! x = h ! x)"
    by blast
next
  assume n: "0 <s n"
  then have "n \<noteq> 0" by auto
  then show "IsOptional h (Some p) = Returns False"
    using assms by (simp add: IsOptional_def)
  show "Activate k h (Some p) = Returns h" using assms n by (simp add: Activate_def)
  show "Deactivate h (Some p) = Returns h" using assms n by (simp add: Deactivate_def)
qed

theorem Least_optional_witness:
  "(1 :: nat) < length [ConstantInt 7, Least_tok 0 (Some 0) [Some 2, Some 3], ConstantInt 7, ConstantInt 7]
   \<and> [ConstantInt 7, Least_tok 0 (Some 0) [Some 2, Some 3], ConstantInt 7, ConstantInt 7] ! 1
        = Least_tok 0 (Some 0) [Some 2, Some 3]
   \<and> repr (\<lambda>_. True) [ConstantInt 7, Least_tok 0 (Some 0) [Some 2, Some 3], ConstantInt 7, ConstantInt 7]
        (Some 0) (ConstantInt_tree 7)
   \<and> height (ConstantInt_tree 7) \<le> Suc 0
   \<and> IsOptional [ConstantInt 7, Least_tok 0 (Some 0) [Some 2, Some 3], ConstantInt 7, ConstantInt 7] (Some 1)
        = Returns True
   \<and> Deactivate [ConstantInt 7, Least_tok 0 (Some 0) [Some 2, Some 3], ConstantInt 7, ConstantInt 7] (Some 1)
        = Returns [ConstantInt 7, Least_tok 0 (Some 0) [], ConstantInt 7, ConstantInt 7]
   \<and> Activate (Suc 0)
        [ConstantInt 7, Least_tok 0 (Some 0) [Some 2, Some 3], ConstantInt 7, ConstantInt 7] (Some 1)
        = Returns [ConstantInt 7, Least_tok 0 (Some 0) [Some 4], ConstantInt 7, ConstantInt 7, ConstantInt 7]
   \<and> (0 :: go_int) <s 2
   \<and> Activate (Suc 0) [ConstantInt 7, Least_tok 2 (Some 0) [Some 2, Some 3], ConstantInt 7, ConstantInt 7] (Some 1)
        = Returns [ConstantInt 7, Least_tok 2 (Some 0) [Some 2, Some 3], ConstantInt 7, ConstantInt 7]
   \<and> Deactivate [ConstantInt 7, Least_tok 2 (Some 0) [Some 2, Some 3], ConstantInt 7, ConstantInt 7] (Some 1)
        = Returns [ConstantInt 7, Least_tok 2 (Some 0) [Some 2, Some 3], ConstantInt 7, ConstantInt 7]"
  using Least_optional [where p = 1
      and h = "[ConstantInt 7, Least_tok 0 (Some 0) [Some 2, Some 3], ConstantInt 7, ConstantInt 7]"
      and n = 0 and tok = "Some 0" and vs = "[Some 2, Some 3]" and P = "\<lambda>_. True"
      and t = "ConstantInt_tree 7" and k = "Suc 0"]
    Least_optional [where p = 1
      and h = "[ConstantInt 7, Least_tok 2 (Some 0) [Some 2, Some 3], ConstantInt 7, ConstantInt 7]"
      and n = 2 and tok = "Some 0" and vs = "[Some 2, Some 3]" and P = "\<lambda>_. True"
      and t = "ConstantInt_tree 7" and k = "Suc 0"]
  by (simp add: at_def alloc_def Activate_def Deactivate_def IsOptional_def word_sless_alt)

end
